theory Spec2Isabelle
  imports Main
begin

section \<open>Nodes, references and the object store\<close>

text \<open>
  The linked-list exercises work on objects of the class \<^verbatim>\<open>Node\<close> of
  \<^verbatim>\<open>utils.py\<close>, with the two fields \<^verbatim>\<open>value\<close> and \<^verbatim>\<open>next\<close>.
  A reference is either Python's \<^verbatim>\<open>None\<close> or the identity of an object. The
  store is the list of all objects created so far: an object's identity is its
  position in the store, and creating an object appends it. Comparing two
  references (\<^verbatim>\<open>==\<close> on nodes, which define no equality of their own) compares
  identities, and a node is true in a condition exactly when it is not
  \<^verbatim>\<open>None\<close>.
\<close>

type_synonym ref = "nat option"

record node =
  val :: int
  nxt :: ref

type_synonym heap = "node list"

text \<open>
  Reading or writing a field through \<^verbatim>\<open>None\<close> raises \<^verbatim>\<open>AttributeError\<close>.
  An exception is recorded together with the store at the moment it was raised.
  A Python program cannot hold a reference to an object that was never created;
  the model gives an identity outside the store the behaviour of \<^verbatim>\<open>None\<close>
  when a field is accessed through it.
\<close>

datatype error = AttributeError

type_synonym 'a result = "(error \<times> heap) + 'a"

definition get_next :: "heap \<Rightarrow> ref \<Rightarrow> ref result" where
  "get_next h p =
     (case p of None \<Rightarrow> Inl (AttributeError, h)
      | Some a \<Rightarrow> if a < length h then Inr (nxt (h ! a)) else Inl (AttributeError, h))"

definition get_value :: "heap \<Rightarrow> ref \<Rightarrow> int result" where
  "get_value h p =
     (case p of None \<Rightarrow> Inl (AttributeError, h)
      | Some a \<Rightarrow> if a < length h then Inr (val (h ! a)) else Inl (AttributeError, h))"

definition set_next :: "heap \<Rightarrow> ref \<Rightarrow> ref \<Rightarrow> heap result" where
  "set_next h p q =
     (case p of None \<Rightarrow> Inl (AttributeError, h)
      | Some a \<Rightarrow> if a < length h then Inr (h[a := (h ! a)\<lparr>nxt := q\<rparr>])
                  else Inl (AttributeError, h))"

text \<open>\<^verbatim>\<open>Node(x)\<close>: a new object with the given value and no successor.\<close>

definition Node :: "heap \<Rightarrow> int \<Rightarrow> heap \<times> ref" where
  "Node h x = (h @ [\<lparr>val = x, nxt = None\<rparr>], Some (length h))"

subsection \<open>Sequencing and loops\<close>

text \<open>
  A loop over a store with a cycle need not end. The outcome of a piece of code
  is \<open>None\<close> when it runs forever, and otherwise the exception it raised or the
  value it produced (with the store it left behind).
\<close>

abbreviation return :: "'a \<Rightarrow> 'a result option" where
  "return x \<equiv> Some (Inr x)"

text \<open>
  A field access is followed by the rest of the block only when it did not
  raise (\<open>ebind\<close>); the code after a call runs when the call returned without
  raising (\<open>after\<close>).
\<close>

definition ebind :: "'a result \<Rightarrow> ('a \<Rightarrow> 'b result option) \<Rightarrow> 'b result option" where
  "ebind x f = (case x of Inl e \<Rightarrow> Some (Inl e) | Inr v \<Rightarrow> f v)"

definition after :: "'a result option \<Rightarrow> ('a \<Rightarrow> 'b result option) \<Rightarrow> 'b result option" where
  "after c f = (case c of None \<Rightarrow> None | Some (Inl e) \<Rightarrow> Some (Inl e) | Some (Inr v) \<Rightarrow> f v)"

text \<open>
  One pass through a loop body either goes round again with new values of the
  variables, or leaves the loop (its condition is false, or a \<^verbatim>\<open>break\<close> or
  \<^verbatim>\<open>return\<close> was reached), or raises, or never finishes.
\<close>

datatype ('s, 'r) step = Again 's | Leave 'r

abbreviation again :: "'s \<Rightarrow> ('s, 'r) step result option" where
  "again s \<equiv> Some (Inr (Again s))"

abbreviation leave :: "'r \<Rightarrow> ('s, 'r) step result option" where
  "leave r \<equiv> Some (Inr (Leave r))"

partial_function (option) while_loop ::
  "('s \<Rightarrow> ('s, 'r) step result option) \<Rightarrow> 's \<Rightarrow> 'r result option" where
  "while_loop body s =
     (case body s of
        None \<Rightarrow> None
      | Some (Inl e) \<Rightarrow> Some (Inl e)
      | Some (Inr (Again s')) \<Rightarrow> while_loop body s'
      | Some (Inr (Leave r)) \<Rightarrow> Some (Inr r))"

declare while_loop.simps [code]

section \<open>The programs\<close>

subsection \<open>utils.py\<close>

text \<open>
  \<^verbatim>\<open>convertArrayToList(array)\<close>: one new node per element, each linked
  behind the previous one. The loop runs over a finite array, so it is a
  recursion on the array, with \<^verbatim>\<open>head\<close> and \<^verbatim>\<open>tail\<close> as accumulators.
\<close>

fun convertArrayToList_loop :: "heap \<Rightarrow> ref \<Rightarrow> ref \<Rightarrow> int list \<Rightarrow> (heap \<times> ref) result" where
  "convertArrayToList_loop h head tail [] = Inr (h, head)"
| "convertArrayToList_loop h head tail (each # array) =
     (case Node h each of (h1, newNode) \<Rightarrow>
        if head = None then convertArrayToList_loop h1 newNode newNode array
        else (case set_next h1 tail newNode of
                Inl e \<Rightarrow> Inl e
              | Inr h2 \<Rightarrow> convertArrayToList_loop h2 head newNode array))"

definition convertArrayToList :: "heap \<Rightarrow> int list \<Rightarrow> (heap \<times> ref) result" where
  "convertArrayToList h array = convertArrayToList_loop h None None array"

text \<open>
  \<^verbatim>\<open>printList(head)\<close>: \<^verbatim>\<open>while node != None: print(node.value); node = node.next\<close>.
  The output is not modelled; the reads and the traversal are.
\<close>

definition printList_body :: "heap \<times> ref \<Rightarrow> (heap \<times> ref, heap) step result option" where
  "printList_body = (\<lambda>(h, node).
     if node \<noteq> None then
       ebind (get_value h node) (\<lambda>_.
       ebind (get_next h node) (\<lambda>node'. again (h, node')))
     else leave h)"

definition printList :: "heap \<Rightarrow> ref \<Rightarrow> heap result option" where
  "printList h head = while_loop printList_body (h, head)"

text \<open>
  \<^verbatim>\<open>countNodes(head)\<close>: \<^verbatim>\<open>while node != None: i += 1; node = node.next\<close>.
\<close>

definition countNodes_body :: "heap \<times> ref \<times> int \<Rightarrow> (heap \<times> ref \<times> int, heap \<times> int) step result option" where
  "countNodes_body = (\<lambda>(h, node, i).
     if node \<noteq> None then ebind (get_next h node) (\<lambda>node'. again (h, node', i + 1))
     else leave (h, i))"

definition countNodes :: "heap \<Rightarrow> ref \<Rightarrow> (heap \<times> int) result option" where
  "countNodes h head = while_loop countNodes_body (h, head, 0)"

subsection \<open>middle\_list.py\<close>

text \<open>
  \<^verbatim>\<open>middleNode2(head)\<close>:
  \<^verbatim>\<open>tmp = head; while tmp and tmp.next: head = head.next; tmp = tmp.next.next\<close>.
\<close>

definition middleNode2_body :: "heap \<times> ref \<times> ref \<Rightarrow> (heap \<times> ref \<times> ref, heap \<times> ref) step result option" where
  "middleNode2_body = (\<lambda>(h, head, tmp).
     if tmp = None then leave (h, head)
     else ebind (get_next h tmp) (\<lambda>tn.
       if tn = None then leave (h, head)
       else ebind (get_next h head) (\<lambda>head'.
            ebind (get_next h tn) (\<lambda>tmp'.
            again (h, head', tmp')))))"

definition middleNode2 :: "heap \<Rightarrow> ref \<Rightarrow> (heap \<times> ref) result option" where
  "middleNode2 h head = while_loop middleNode2_body (h, head, head)"

subsection \<open>build\_linked\_list.py\<close>

text \<open>
  \<^verbatim>\<open>reverseList(oldList)\<close>: each node in turn is taken off the front of the
  old list and put in front of the new one.
\<close>

definition reverseList_body :: "heap \<times> ref \<times> ref \<Rightarrow> (heap \<times> ref \<times> ref, heap \<times> ref) step result option" where
  "reverseList_body = (\<lambda>(h, oldList, newList).
     if oldList \<noteq> None then
       ebind (get_next h oldList) (\<lambda>oldList'.
       ebind (set_next h oldList newList) (\<lambda>h'.
       again (h', oldList', oldList)))
     else leave (h, newList))"

definition reverseList :: "heap \<Rightarrow> ref \<Rightarrow> (heap \<times> ref) result option" where
  "reverseList h oldList = while_loop reverseList_body (h, oldList, None)"

text \<open>
  \<^verbatim>\<open>reverseHeadToTail(head, tail)\<close> reverses the nodes from \<^verbatim>\<open>head\<close> up to
  \<^verbatim>\<open>tail\<close>; the first node moved is linked to what followed \<^verbatim>\<open>tail\<close>. The two
  \<^verbatim>\<open>print\<close> calls at its start read \<^verbatim>\<open>head.value\<close> and \<^verbatim>\<open>tail.value\<close>, and
  it prints the new list before it returns the pair \<^verbatim>\<open>(newList, oldHead)\<close>.
\<close>

definition reverseHeadToTail_body ::
  "ref \<Rightarrow> heap \<times> ref \<times> ref \<Rightarrow> (heap \<times> ref \<times> ref, heap \<times> ref) step result option" where
  "reverseHeadToTail_body tailNext = (\<lambda>(h, head, newList).
     if head \<noteq> None \<and> head \<noteq> tailNext then
       ebind (get_next h head) (\<lambda>head'.
       ebind (if newList = None then set_next h head tailNext
              else set_next h head newList) (\<lambda>h'.
       again (h', head', head)))
     else leave (h, newList))"

definition reverseHeadToTail :: "heap \<Rightarrow> ref \<Rightarrow> ref \<Rightarrow> (heap \<times> ref \<times> ref) result option" where
  "reverseHeadToTail h head tail =
     ebind (get_value h head) (\<lambda>_.
     ebind (get_value h tail) (\<lambda>_.
     ebind (get_next h tail) (\<lambda>tailNext.
     after (while_loop (reverseHeadToTail_body tailNext) (h, head, None)) (\<lambda>(h1, newList).
     after (printList h1 newList) (\<lambda>h2.
     return (h2, newList, head))))))"

text \<open>
  \<^verbatim>\<open>findTail(head, k)\<close>: the \<^verbatim>\<open>k\<close>-th node from \<^verbatim>\<open>head\<close> with \<^verbatim>\<open>True\<close>, or
  \<^verbatim>\<open>head\<close> with \<^verbatim>\<open>False\<close> when fewer than \<^verbatim>\<open>k\<close> nodes are left.
\<close>

definition findTail_body ::
  "ref \<Rightarrow> int \<Rightarrow> heap \<times> ref \<times> int \<Rightarrow> (heap \<times> ref \<times> int, heap \<times> ref \<times> bool) step result option" where
  "findTail_body head k = (\<lambda>(h, node, i).
     if i < k then
       ebind (get_next h node) (\<lambda>nn.
       if nn = None then leave (h, head, False)
       else again (h, nn, i + 1))
     else leave (h, node, True))"

definition findTail :: "heap \<Rightarrow> ref \<Rightarrow> int \<Rightarrow> (heap \<times> ref \<times> bool) result option" where
  "findTail h head k =
     (if head = None then return (h, None, False)
      else while_loop (findTail_body head k) (h, head, 1))"

text \<open>
  \<^verbatim>\<open>reverseListKAtATime(head, k)\<close>. The loop variables are \<^verbatim>\<open>firstTime\<close>,
  \<^verbatim>\<open>newHead\<close>, \<^verbatim>\<open>firstHead\<close> and \<^verbatim>\<open>prevTail\<close>; the \<^verbatim>\<open>print\<close> in the body
  reads \<^verbatim>\<open>prevTail.value\<close>.
\<close>

definition reverseListKAtATime_body ::
  "int \<Rightarrow> heap \<times> bool \<times> ref \<times> ref \<times> ref
     \<Rightarrow> (heap \<times> bool \<times> ref \<times> ref \<times> ref, heap \<times> ref) step result option" where
  "reverseListKAtATime_body k = (\<lambda>(h, firstTime, newHead, firstHead, prevTail).
     after (findTail h newHead k) (\<lambda>(h1, tail, tf).
     if tf \<noteq> False then
       ebind (get_next h1 tail) (\<lambda>nextHead.
       after (reverseHeadToTail h1 newHead tail) (\<lambda>(h2, newHead', newTail).
       ebind (get_value h2 prevTail) (\<lambda>_.
       if firstTime then again (h2, False, nextHead, newHead', prevTail)
       else ebind (set_next h2 prevTail newHead') (\<lambda>h3.
            again (h3, firstTime, nextHead, firstHead, newTail)))))
     else leave (h1, firstHead)))"

definition reverseListKAtATime :: "heap \<Rightarrow> ref \<Rightarrow> int \<Rightarrow> (heap \<times> ref) result option" where
  "reverseListKAtATime h head k =
     while_loop (reverseListKAtATime_body k) (h, True, head, head, head)"

subsection \<open>palindrome.py\<close>

text \<open>\<^verbatim>\<open>listLength(head)\<close>: \<^verbatim>\<open>while head: head = head.next; count += 1\<close>.\<close>

definition listLength_body :: "heap \<times> ref \<times> int \<Rightarrow> (heap \<times> ref \<times> int, heap \<times> int) step result option" where
  "listLength_body = (\<lambda>(h, head, count).
     if head \<noteq> None then ebind (get_next h head) (\<lambda>head'. again (h, head', count + 1))
     else leave (h, count))"

definition listLength :: "heap \<Rightarrow> ref \<Rightarrow> (heap \<times> int) result option" where
  "listLength h head = while_loop listLength_body (h, head, 0)"

text \<open>
  \<^verbatim>\<open>getMid(head)\<close>:
  \<^verbatim>\<open>n1 = n2 = head; while n2 and n2.next: n1 = n1.next; n2 = n2.next.next\<close>.
\<close>

definition getMid_body :: "heap \<times> ref \<times> ref \<Rightarrow> (heap \<times> ref \<times> ref, heap \<times> ref) step result option" where
  "getMid_body = (\<lambda>(h, n1, n2).
     if n2 = None then leave (h, n1)
     else ebind (get_next h n2) (\<lambda>n2n.
       if n2n = None then leave (h, n1)
       else ebind (get_next h n1) (\<lambda>n1'.
            ebind (get_next h n2n) (\<lambda>n2'.
            again (h, n1', n2')))))"

definition getMid :: "heap \<Rightarrow> ref \<Rightarrow> (heap \<times> ref) result option" where
  "getMid h head = while_loop getMid_body (h, head, head)"

text \<open>
  \<^verbatim>\<open>reverseList(head)\<close> of \<^verbatim>\<open>palindrome.py\<close>:
  \<^verbatim>\<open>while n: nxt = n.next; n.next = newList; newList = n; n = nxt\<close>.
\<close>

definition reverseList_palindrome_body ::
  "heap \<times> ref \<times> ref \<Rightarrow> (heap \<times> ref \<times> ref, heap \<times> ref) step result option" where
  "reverseList_palindrome_body = (\<lambda>(h, n, newList).
     if n \<noteq> None then
       ebind (get_next h n) (\<lambda>nxt'.
       ebind (set_next h n newList) (\<lambda>h'.
       again (h', nxt', n)))
     else leave (h, newList))"

definition reverseList_palindrome :: "heap \<Rightarrow> ref \<Rightarrow> (heap \<times> ref) result option" where
  "reverseList_palindrome h head = while_loop reverseList_palindrome_body (h, head, None)"

text \<open>
  \<^verbatim>\<open>isPalidrome(head)\<close>: the part of the list from the middle on (after the
  middle node, when the length is odd) is reversed, and the two halves are
  compared node by node until one of them ends.
\<close>

definition isPalidrome_body :: "heap \<times> ref \<times> ref \<Rightarrow> (heap \<times> ref \<times> ref, heap \<times> bool) step result option" where
  "isPalidrome_body = (\<lambda>(h, head, newList).
     if head \<noteq> None \<and> newList \<noteq> None then
       ebind (get_value h head) (\<lambda>v1.
       ebind (get_value h newList) (\<lambda>v2.
       if v1 \<noteq> v2 then leave (h, False)
       else ebind (get_next h head) (\<lambda>head'.
            ebind (get_next h newList) (\<lambda>newList'.
            again (h, head', newList')))))
     else leave (h, True))"

definition isPalidrome :: "heap \<Rightarrow> ref \<Rightarrow> (heap \<times> bool) result option" where
  "isPalidrome h head =
     after (getMid h head) (\<lambda>(h1, midElement).
     after (listLength h1 head) (\<lambda>(h2, len).
     ebind (if len mod 2 = 1 then get_next h2 midElement else Inr midElement) (\<lambda>midElement'.
     after (reverseList_palindrome h2 midElement') (\<lambda>(h3, newList).
     while_loop isPalidrome_body (h3, head, newList)))))"

subsection \<open>insertion\_sort.py\<close>

text \<open>
  \<^verbatim>\<open>insertNode(head, node)\<close>: the scan
  \<^verbatim>\<open>while n and n.value < node.value: prev = n; n = n.next\<close>
  stops at the first node whose value is not smaller than the new node's.
\<close>

definition insertNode_body ::
  "ref \<Rightarrow> heap \<times> ref \<times> ref \<Rightarrow> (heap \<times> ref \<times> ref, heap \<times> ref \<times> ref) step result option" where
  "insertNode_body node = (\<lambda>(h, n, prev).
     if n \<noteq> None then
       ebind (get_value h n) (\<lambda>nv.
       ebind (get_value h node) (\<lambda>v.
       if nv < v then ebind (get_next h n) (\<lambda>n'. again (h, n', n))
       else leave (h, n, prev)))
     else leave (h, n, prev))"

definition insertNode :: "heap \<Rightarrow> ref \<Rightarrow> ref \<Rightarrow> (heap \<times> ref) result option" where
  "insertNode h head node =
     (if head = None then
        ebind (set_next h node None) (\<lambda>h1. return (h1, node))
      else
        after (while_loop (insertNode_body node) (h, head, None)) (\<lambda>(h1, n, prev).
        if prev = None then
          ebind (set_next h1 node head) (\<lambda>h2. return (h2, node))
        else
          ebind (set_next h1 node n) (\<lambda>h2.
          ebind (set_next h2 prev node) (\<lambda>h3. return (h3, head)))))"

text \<open>
  \<^verbatim>\<open>insertionSort(head)\<close>:
  \<^verbatim>\<open>while head: n = head.next; newList = insertNode(newList, head); head = n\<close>.
\<close>

definition insertionSort_body :: "heap \<times> ref \<times> ref \<Rightarrow> (heap \<times> ref \<times> ref, heap \<times> ref) step result option" where
  "insertionSort_body = (\<lambda>(h, head, newList).
     if head \<noteq> None then
       ebind (get_next h head) (\<lambda>n.
       after (insertNode h newList head) (\<lambda>(h', newList').
       again (h', n, newList')))
     else leave (h, newList))"

definition insertionSort :: "heap \<Rightarrow> ref \<Rightarrow> (heap \<times> ref) result option" where
  "insertionSort h head = while_loop insertionSort_body (h, head, None)"

subsection \<open>remove\_nth\_node.py\<close>

text \<open>
  \<^verbatim>\<open>removeNthFromEnd2(head, n)\<close>: \<^verbatim>\<open>nth\<close> follows \<^verbatim>\<open>node\<close> at a distance of
  \<^verbatim>\<open>n\<close> nodes, \<^verbatim>\<open>prev\<close> is the node before \<^verbatim>\<open>nth\<close>.
\<close>

definition removeNthFromEnd2_body ::
  "int \<Rightarrow> heap \<times> ref \<times> ref \<times> ref \<times> int
     \<Rightarrow> (heap \<times> ref \<times> ref \<times> ref \<times> int, heap \<times> ref \<times> ref) step result option" where
  "removeNthFromEnd2_body n = (\<lambda>(h, node, prev, nth, i).
     if node \<noteq> None then
       (if i > n then
          ebind (get_next h nth) (\<lambda>nth'.
          ebind (get_next h node) (\<lambda>node'.
          again (h, node', nth, nth', i + 1)))
        else
          ebind (get_next h node) (\<lambda>node'.
          again (h, node', prev, nth, i + 1)))
     else leave (h, prev, nth))"

definition removeNthFromEnd2 :: "heap \<Rightarrow> ref \<Rightarrow> int \<Rightarrow> (heap \<times> ref) result option" where
  "removeNthFromEnd2 h head n =
     after (while_loop (removeNthFromEnd2_body n) (h, head, None, head, 1)) (\<lambda>(h1, prev, nth).
     if prev = None then
       ebind (get_next h1 nth) (\<lambda>nth'. return (h1, nth'))
     else if nth = None then
       ebind (set_next h1 prev None) (\<lambda>h2. return (h2, head))
     else
       ebind (get_next h1 nth) (\<lambda>nn.
       ebind (set_next h1 prev nn) (\<lambda>h2. return (h2, head))))"

text \<open>
  \<^verbatim>\<open>removeNthFromBegining(head, n)\<close>:
  \<^verbatim>\<open>while i != n: prev = node; node = node.next; i = i + 1\<close>.
\<close>

definition removeNthFromBegining_body ::
  "int \<Rightarrow> heap \<times> ref \<times> ref \<times> int
     \<Rightarrow> (heap \<times> ref \<times> ref \<times> int, heap \<times> ref \<times> ref) step result option" where
  "removeNthFromBegining_body n = (\<lambda>(h, node, prev, i).
     if i \<noteq> n then
       ebind (get_next h node) (\<lambda>node'. again (h, node', node, i + 1))
     else leave (h, node, prev))"

definition removeNthFromBegining :: "heap \<Rightarrow> ref \<Rightarrow> int \<Rightarrow> (heap \<times> ref) result option" where
  "removeNthFromBegining h head n =
     after (while_loop (removeNthFromBegining_body n) (h, head, None, 1)) (\<lambda>(h1, node, prev).
     if prev = None then
       ebind (get_next h1 node) (\<lambda>node'. return (h1, node'))
     else if node = None then
       ebind (set_next h1 prev None) (\<lambda>h2. return (h2, head))
     else
       ebind (get_next h1 node) (\<lambda>nn.
       ebind (set_next h1 prev nn) (\<lambda>h2. return (h2, head))))"

text \<open>\<^verbatim>\<open>removeNthFronEnd(head, n)\<close> counts the nodes and removes from the front.\<close>

definition removeNthFronEnd :: "heap \<Rightarrow> ref \<Rightarrow> int \<Rightarrow> (heap \<times> ref) result option" where
  "removeNthFronEnd h head n =
     after (countNodes h head) (\<lambda>(h1, N).
     removeNthFromBegining h1 head (N - n + 1))"

subsection \<open>remove\_duplicates.py\<close>

text \<open>
  \<^verbatim>\<open>removeDuplicates2(head)\<close>. The inner loop
  \<^verbatim>\<open>while n.next and n.next.value == cur.value: n = n.next\<close>
  finds the last node of the run of equal values that starts at \<^verbatim>\<open>cur\<close>.
\<close>

definition removeDuplicates2_inner ::
  "ref \<Rightarrow> heap \<times> ref \<Rightarrow> (heap \<times> ref, heap \<times> ref) step result option" where
  "removeDuplicates2_inner cur = (\<lambda>(h, n).
     ebind (get_next h n) (\<lambda>nn.
     if nn \<noteq> None then
       ebind (get_value h nn) (\<lambda>nv.
       ebind (get_value h cur) (\<lambda>cv.
       if nv = cv then again (h, nn) else leave (h, n)))
     else leave (h, n)))"

definition removeDuplicates2_body :: "heap \<times> ref \<Rightarrow> (heap \<times> ref, heap) step result option" where
  "removeDuplicates2_body = (\<lambda>(h, cur).
     if cur \<noteq> None then
       after (while_loop (removeDuplicates2_inner cur) (h, cur)) (\<lambda>(h1, n).
       if cur = n then
         ebind (get_next h1 cur) (\<lambda>cur'. again (h1, cur'))
       else
         ebind (get_next h1 n) (\<lambda>nn.
         ebind (set_next h1 cur nn) (\<lambda>h2. again (h2, cur))))
     else leave h)"

definition removeDuplicates2 :: "heap \<Rightarrow> ref \<Rightarrow> (heap \<times> ref) result option" where
  "removeDuplicates2 h head =
     (if head = None then return (h, head)
      else after (while_loop removeDuplicates2_body (h, head)) (\<lambda>h1. return (h1, head)))"

subsection \<open>partition\_list.py\<close>

text \<open>
  \<^verbatim>\<open>partition2(head, value)\<close>: two new nodes \<^verbatim>\<open>left\<close> and \<^verbatim>\<open>right\<close> start
  the two output lists; every node is linked behind \<^verbatim>\<open>l\<close> or behind \<^verbatim>\<open>r\<close>.
\<close>

definition partition2_body ::
  "int \<Rightarrow> heap \<times> ref \<times> ref \<times> ref \<Rightarrow> (heap \<times> ref \<times> ref \<times> ref, heap \<times> ref \<times> ref) step result option" where
  "partition2_body value' = (\<lambda>(h, head, l, r).
     if head \<noteq> None then
       ebind (get_value h head) (\<lambda>v.
       if v < value' then
         ebind (set_next h l head) (\<lambda>h1.
         ebind (get_next h1 l) (\<lambda>l'.
         ebind (get_next h1 head) (\<lambda>head'.
         again (h1, head', l', r))))
       else
         ebind (set_next h r head) (\<lambda>h1.
         ebind (get_next h1 r) (\<lambda>r'.
         ebind (get_next h1 head) (\<lambda>head'.
         again (h1, head', l, r')))))
     else leave (h, l, r))"

definition partition2 :: "heap \<Rightarrow> ref \<Rightarrow> int \<Rightarrow> (heap \<times> ref) result option" where
  "partition2 h head value' =
     (case Node h 0 of (h1, left) \<Rightarrow>
      case Node h1 0 of (h2, right) \<Rightarrow>
        after (while_loop (partition2_body value') (h2, head, left, right)) (\<lambda>(h3, l, r).
        ebind (get_next h3 right) (\<lambda>rn.
        ebind (set_next h3 l rn) (\<lambda>h4.
        ebind (set_next h4 r None) (\<lambda>h5.
        ebind (get_next h5 left) (\<lambda>res.
        return (h5, res)))))))"

subsection \<open>detect\_cycle.py\<close>

text \<open>
  \<^verbatim>\<open>detectCycle2(head)\<close>. The first loop runs inside \<^verbatim>\<open>try\<close>: any exception
  there makes the function return \<^verbatim>\<open>None\<close>. The \<^verbatim>\<open>break\<close> leaves the loop with
  \<^verbatim>\<open>isCycle\<close> set. The second loop is outside the \<^verbatim>\<open>try\<close>.
\<close>

definition detectCycle2_body ::
  "heap \<times> ref \<times> ref \<times> bool \<Rightarrow> (heap \<times> ref \<times> ref \<times> bool, heap \<times> ref \<times> ref \<times> bool) step result option" where
  "detectCycle2_body = (\<lambda>(h, fast, slow, isCycle).
     if fast \<noteq> None \<and> slow \<noteq> None then
       ebind (get_next h fast) (\<lambda>fn.
       ebind (get_next h fn) (\<lambda>fast'.
       ebind (get_next h slow) (\<lambda>slow'.
       if fast' = slow' then leave (h, fast', slow', True)
       else again (h, fast', slow', isCycle))))
     else leave (h, fast, slow, isCycle))"

definition detectCycle2_entry :: "heap \<times> ref \<times> ref \<Rightarrow> (heap \<times> ref \<times> ref, heap \<times> ref) step result option" where
  "detectCycle2_entry = (\<lambda>(h, node, slow).
     if node \<noteq> slow then
       ebind (get_next h node) (\<lambda>node'.
       ebind (get_next h slow) (\<lambda>slow'.
       again (h, node', slow')))
     else leave (h, node))"

definition detectCycle2 :: "heap \<Rightarrow> ref \<Rightarrow> (heap \<times> ref) result option" where
  "detectCycle2 h head =
     (case while_loop detectCycle2_body (h, head, head, False) of
        None \<Rightarrow> None
      | Some (Inl (e, h1)) \<Rightarrow> return (h1, None)
      | Some (Inr (h1, fast, slow, isCycle)) \<Rightarrow>
          if isCycle then while_loop detectCycle2_entry (h1, head, slow)
          else return (h1, None))"

subsection \<open>intersect.py\<close>

text \<open>
  \<^verbatim>\<open>intersect(headA, headB)\<close>:
  \<^verbatim>\<open>while a != b: a = headB if a == None else a.next; b = headA if b == None else b.next\<close>.
\<close>

definition intersect_body ::
  "ref \<Rightarrow> ref \<Rightarrow> heap \<times> ref \<times> ref \<Rightarrow> (heap \<times> ref \<times> ref, heap \<times> ref) step result option" where
  "intersect_body headA headB = (\<lambda>(h, a, b).
     if a \<noteq> b then
       ebind (if a = None then Inr headB else get_next h a) (\<lambda>a'.
       ebind (if b = None then Inr headA else get_next h b) (\<lambda>b'.
       again (h, a', b')))
     else leave (h, a))"

definition intersect :: "heap \<Rightarrow> ref \<Rightarrow> ref \<Rightarrow> (heap \<times> ref) result option" where
  "intersect h headA headB = while_loop (intersect_body headA headB) (h, headA, headB)"

section \<open>Chains in the store\<close>

text \<open>
  \<open>path h p as q\<close>: following \<^verbatim>\<open>next\<close> from \<open>p\<close> visits exactly the nodes
  \<open>as\<close>, in this order, and then arrives at \<open>q\<close>. An acyclic chain is a path that
  ends in \<^verbatim>\<open>None\<close>; \<open>vals\<close> reads the values along it.
\<close>

fun path :: "heap \<Rightarrow> ref \<Rightarrow> nat list \<Rightarrow> ref \<Rightarrow> bool" where
  "path h p [] q = (p = q)"
| "path h p (a # as) q = (p = Some a \<and> a < length h \<and> path h (nxt (h ! a)) as q)"

definition chain :: "heap \<Rightarrow> ref \<Rightarrow> nat list \<Rightarrow> bool" where
  "chain h p as = path h p as None"

definition vals :: "heap \<Rightarrow> nat list \<Rightarrow> int list" where
  "vals h as = map (\<lambda>a. val (h ! a)) as"

text \<open>The reference to the \<open>k\<close>-th node of a chain, \<^verbatim>\<open>None\<close> past its end.\<close>

definition refat :: "nat list \<Rightarrow> nat \<Rightarrow> ref" where
  "refat as k = (if k < length as then Some (as ! k) else None)"

section \<open>Notions used in the statements\<close>

text \<open>
  The store in which a run ended: the one returned, or the one in which the
  exception was raised.
\<close>

definition store_of :: "(heap \<times> 'a) result \<Rightarrow> heap" where
  "store_of out = (case out of Inl (e, h) \<Rightarrow> h | Inr (h, r) \<Rightarrow> h)"

text \<open>
  A chain with a cycle: the distinct nodes \<open>as\<close> are linked in this order from
  \<open>head\<close>, and the \<^verbatim>\<open>next\<close> of the last one is the node at index \<open>i\<close>.
\<close>

definition lasso :: "heap \<Rightarrow> ref \<Rightarrow> nat list \<Rightarrow> nat \<Rightarrow> bool" where
  "lasso h head as i = (i < length as \<and> distinct as \<and> path h head as (Some (as ! i)))"

text \<open>
  The index of the node reached after \<open>t\<close> steps from the head of such a chain
  of \<open>n\<close> nodes.
\<close>

definition cycle_pos :: "nat \<Rightarrow> nat \<Rightarrow> nat \<Rightarrow> nat" where
  "cycle_pos n i t = (if t < i then t else i + (t - i) mod (n - i))"

text \<open>The fast and the slow pointer are on the same node after \<open>j\<close> passes.\<close>

definition meet :: "nat \<Rightarrow> nat \<Rightarrow> nat \<Rightarrow> bool" where
  "meet n i j = (0 < j \<and> cycle_pos n i (2 * j) = cycle_pos n i j)"

text \<open>The value held by the node with a given identity.\<close>

definition key :: "heap \<Rightarrow> nat \<Rightarrow> int" where
  "key h a = val (h ! a)"

text \<open>
  Two ways of putting a new element \<open>a\<close> into a list ordered by \<open>f\<close>: in front
  of the first element that is not smaller than \<open>a\<close>, and in front of the first
  element that is strictly greater than \<open>a\<close> (behind all elements equal to it).
  The order in which a list ends up when its elements are put one by one, from
  the front, into an initially empty list.
\<close>

definition insert_before_not_smaller :: "('a \<Rightarrow> int) \<Rightarrow> 'a \<Rightarrow> 'a list \<Rightarrow> 'a list" where
  "insert_before_not_smaller f a bs =
     takeWhile (\<lambda>b. f b < f a) bs @ a # dropWhile (\<lambda>b. f b < f a) bs"

definition insert_before_greater :: "('a \<Rightarrow> int) \<Rightarrow> 'a \<Rightarrow> 'a list \<Rightarrow> 'a list" where
  "insert_before_greater f a bs =
     takeWhile (\<lambda>b. f b \<le> f a) bs @ a # dropWhile (\<lambda>b. f b \<le> f a) bs"

definition insertion_order :: "('a \<Rightarrow> int) \<Rightarrow> 'a list \<Rightarrow> 'a list" where
  "insertion_order f as = foldl (\<lambda>acc a. insert_before_not_smaller f a acc) [] as"

definition stable_insertion_order :: "('a \<Rightarrow> int) \<Rightarrow> 'a list \<Rightarrow> 'a list" where
  "stable_insertion_order f as = foldl (\<lambda>acc a. insert_before_greater f a acc) [] as"

text \<open>
  The first element of every run of neighbours with equal keys.
\<close>

fun keep_first :: "('a \<Rightarrow> int) \<Rightarrow> 'a list \<Rightarrow> 'a list" where
  "keep_first f [] = []"
| "keep_first f [a] = [a]"
| "keep_first f (a # b # as) =
     (if f b = f a then keep_first f (a # as) else a # keep_first f (b # as))"

text \<open>
  Reversal in groups: every full run of \<open>k\<close> consecutive elements is reversed,
  and what is left at the end, fewer than \<open>k\<close> elements, stays as it is.
\<close>

function reverse_groups :: "nat \<Rightarrow> 'a list \<Rightarrow> 'a list" where
  "reverse_groups k xs =
     (if k = 0 \<or> length xs < k then xs
      else rev (take k xs) @ reverse_groups k (drop k xs))"
  by pat_completeness auto
termination
  by (relation "measure (\<lambda>(k, xs). length xs)") auto

declare reverse_groups.simps [simp del]

section \<open>Basic facts\<close>

subsection \<open>Unfolding a loop by one pass\<close>

lemma while_loop_Again: "body s = again s' \<Longrightarrow> while_loop body s = while_loop body s'"
  by (subst while_loop.simps) simp

lemma while_loop_Leave: "body s = leave r \<Longrightarrow> while_loop body s = return r"
  by (subst while_loop.simps) simp

lemma while_loop_Raise: "body s = Some (Inl e) \<Longrightarrow> while_loop body s = Some (Inl e)"
  by (subst while_loop.simps) simp

lemma ebind_Inr [simp]: "ebind (Inr v) f = f v"
  by (simp add: ebind_def)

lemma ebind_Inl [simp]: "ebind (Inl e) f = Some (Inl e)"
  by (simp add: ebind_def)

lemma after_return [simp]: "after (return v) f = f v"
  by (simp add: after_def)

lemma after_raise [simp]: "after (Some (Inl e)) f = Some (Inl e)"
  by (simp add: after_def)

lemma after_None [simp]: "after None f = None"
  by (simp add: after_def)

subsection \<open>Field accesses through a valid reference\<close>

lemma get_next_Some [simp]: "a < length h \<Longrightarrow> get_next h (Some a) = Inr (nxt (h ! a))"
  by (simp add: get_next_def)

lemma get_value_Some [simp]: "a < length h \<Longrightarrow> get_value h (Some a) = Inr (val (h ! a))"
  by (simp add: get_value_def)

lemma set_next_Some [simp]:
  "a < length h \<Longrightarrow> set_next h (Some a) q = Inr (h[a := (h ! a)\<lparr>nxt := q\<rparr>])"
  by (simp add: set_next_def)

lemma get_next_None [simp]: "get_next h None = Inl (AttributeError, h)"
  by (simp add: get_next_def)

lemma get_value_None [simp]: "get_value h None = Inl (AttributeError, h)"
  by (simp add: get_value_def)

lemma set_next_None [simp]: "set_next h None q = Inl (AttributeError, h)"
  by (simp add: set_next_def)

lemma map_val_set_next [simp]: "map val (h[a := (h ! a)\<lparr>nxt := q\<rparr>]) = map val h"
proof (rule nth_equalityI)
  fix i
  assume "i < length (map val (h[a := (h ! a)\<lparr>nxt := q\<rparr>]))"
  then show "map val (h[a := (h ! a)\<lparr>nxt := q\<rparr>]) ! i = map val h ! i"
    by (cases "a = i") simp_all
qed simp

lemma map_val_nth: "map val h' = map val h \<Longrightarrow> a < length h \<Longrightarrow> val (h' ! a) = val (h ! a)"
  by (metis length_map nth_map)

lemma map_val_length: "map val h' = map val h \<Longrightarrow> length h' = length h"
  by (metis length_map)

subsection \<open>Paths and chains\<close>

lemma path_append: "path h p (as @ bs) q = (\<exists>r. path h p as r \<and> path h r bs q)"
  by (induction as arbitrary: p) auto

lemma path_snoc: "path h p (as @ [a]) q = (path h p as (Some a) \<and> a < length h \<and> nxt (h ! a) = q)"
  by (auto simp: path_append)

lemma path_in_heap: "path h p as q \<Longrightarrow> a \<in> set as \<Longrightarrow> a < length h"
  by (induction as arbitrary: p) auto

lemma path_frame:
  "length h' = length h \<Longrightarrow> (\<forall>a \<in> set as. nxt (h' ! a) = nxt (h ! a)) \<Longrightarrow>
   path h' p as q = path h p as q"
  by (induction as arbitrary: p) auto

lemma path_update [simp]:
  "a \<notin> set as \<Longrightarrow> path (h[a := n]) p as q = path h p as q"
  by (rule path_frame) (simp, metis nth_list_update_neq)

lemma chain_Nil [simp]: "chain h p [] = (p = None)"
  by (simp add: chain_def)

lemma chain_Cons [simp]:
  "chain h p (a # as) = (p = Some a \<and> a < length h \<and> chain h (nxt (h ! a)) as)"
  by (simp add: chain_def)

lemma chain_None [simp]: "chain h None as = (as = [])"
  by (cases as) auto

lemma chain_update [simp]: "a \<notin> set as \<Longrightarrow> chain (h[a := n]) p as = chain h p as"
  by (simp add: chain_def)

lemma chain_frame:
  "length h' = length h \<Longrightarrow> (\<forall>a \<in> set as. nxt (h' ! a) = nxt (h ! a)) \<Longrightarrow>
   chain h' p as = chain h p as"
  unfolding chain_def by (rule path_frame)

lemma chain_append: "chain h p (as @ bs) = (\<exists>r. path h p as r \<and> chain h r bs)"
  by (simp add: chain_def path_append)

lemma chain_in_heap: "chain h p as \<Longrightarrow> a \<in> set as \<Longrightarrow> a < length h"
  unfolding chain_def by (rule path_in_heap)

lemma chain_unique: "chain h p as \<Longrightarrow> chain h p bs \<Longrightarrow> as = bs"
proof (induction as arbitrary: p bs)
  case Nil
  then show ?case by simp
next
  case (Cons a as)
  then show ?case by (cases bs) auto
qed

lemma chain_not_in_tail:
  assumes "chain h (Some a) (a # as)"
  shows "a \<notin> set as"
proof
  assume "a \<in> set as"
  then obtain xs ys where split: "as = xs @ a # ys"
    by (auto simp: in_set_conv_decomp)
  from assms have whole: "chain h (nxt (h ! a)) as" by simp
  with split obtain r where "path h (nxt (h ! a)) xs r" "chain h r (a # ys)"
    by (auto simp: chain_append)
  hence "chain h (nxt (h ! a)) ys" by simp
  with whole have "as = ys" by (rule chain_unique)
  with split show False by simp
qed

lemma chain_distinct: "chain h p as \<Longrightarrow> distinct as"
proof (induction as arbitrary: p)
  case Nil
  then show ?case by simp
next
  case (Cons a as)
  hence "chain h (Some a) (a # as)" by simp
  hence "a \<notin> set as" by (rule chain_not_in_tail)
  moreover from Cons.prems have "chain h (nxt (h ! a)) as" by simp
  hence "distinct as" by (rule Cons.IH)
  ultimately show ?case by simp
qed

lemma chain_drop: "chain h p as \<Longrightarrow> chain h (refat as k) (drop k as)"
proof (induction k arbitrary: p as)
  case 0
  then show ?case by (cases as) (auto simp: refat_def)
next
  case (Suc k)
  show ?case
  proof (cases as)
    case Nil
    then show ?thesis by (simp add: refat_def)
  next
    case (Cons a as')
    with Suc.prems have "chain h (nxt (h ! a)) as'" by simp
    from Suc.IH[OF this] Cons show ?thesis by (auto simp: refat_def split: if_splits)
  qed
qed

lemma path_take: "chain h p as \<Longrightarrow> path h p (take k as) (refat as k)"
proof (induction k arbitrary: p as)
  case 0
  then show ?case by (cases as) (auto simp: refat_def)
next
  case (Suc k)
  show ?case
  proof (cases as)
    case Nil
    with Suc.prems show ?thesis by (simp add: refat_def)
  next
    case (Cons a as')
    with Suc.prems have "chain h (nxt (h ! a)) as'" by simp
    from Suc.IH[OF this] Cons Suc.prems show ?thesis
      by (auto simp: refat_def chain_def split: if_splits)
  qed
qed

lemma refat_0: "chain h p as \<Longrightarrow> refat as 0 = p"
  by (cases as) (auto simp: refat_def)

lemma refat_valid: "chain h p as \<Longrightarrow> k < length as \<Longrightarrow> as ! k < length h"
  by (simp add: chain_in_heap)

lemma nxt_refat:
  assumes "chain h p as" "k < length as"
  shows "nxt (h ! (as ! k)) = refat as (Suc k)"
proof -
  from chain_drop[OF assms(1), of k] assms(2)
  have "chain h (Some (as ! k)) (as ! k # drop (Suc k) as)"
    by (simp add: refat_def Cons_nth_drop_Suc)
  hence "chain h (nxt (h ! (as ! k))) (drop (Suc k) as)" by simp
  moreover have "chain h (refat as (Suc k)) (drop (Suc k) as)"
    using assms(1) by (rule chain_drop)
  ultimately show ?thesis
    by (cases "drop (Suc k) as") (auto simp: refat_def)
qed

lemma get_next_refat:
  assumes "chain h p as" "k < length as"
  shows "get_next h (refat as k) = Inr (refat as (Suc k))"
  using nxt_refat[OF assms] refat_valid[OF assms] assms(2)
  by (simp add: refat_def)

lemma refat_None_iff: "refat as k = None \<longleftrightarrow> length as \<le> k"
  by (simp add: refat_def)

subsection \<open>The middle of a chain\<close>

lemma middleNode2_loop:
  assumes "chain h p as"
  shows "2 * j \<le> length as \<Longrightarrow>
    while_loop middleNode2_body (h, refat as j, refat as (2 * j))
      = return (h, refat as (length as div 2))"
proof (induction "length as - 2 * j" arbitrary: j rule: less_induct)
  case less
  consider (even_end) "2 * j = length as" | (odd_end) "Suc (2 * j) = length as"
    | (more) "Suc (2 * j) < length as"
    using less.prems by linarith
  then show ?case
  proof cases
    case even_end
    hence "refat as (2 * j) = None" "length as div 2 = j"
      by (auto simp: refat_def)
    then show ?thesis
      by (intro while_loop_Leave) (simp add: middleNode2_body_def)
  next
    case odd_end
    hence "get_next h (refat as (2 * j)) = Inr (refat as (Suc (2 * j)))"
      using get_next_refat[OF assms, of "2 * j"] by simp
    moreover from odd_end have "refat as (Suc (2 * j)) = None" "length as div 2 = j"
      "refat as (2 * j) = Some (as ! (2 * j))"
      by (auto simp: refat_def)
    ultimately show ?thesis
      by (intro while_loop_Leave) (simp add: middleNode2_body_def)
  next
    case more
    hence reads: "get_next h (refat as (2 * j)) = Inr (refat as (Suc (2 * j)))"
      "get_next h (refat as (Suc (2 * j))) = Inr (refat as (2 * Suc j))"
      "get_next h (refat as j) = Inr (refat as (Suc j))"
      using get_next_refat[OF assms, of "2 * j"] get_next_refat[OF assms, of "Suc (2 * j)"]
        get_next_refat[OF assms, of j] by simp_all
    from more have "refat as (2 * j) = Some (as ! (2 * j))"
      "refat as (Suc (2 * j)) = Some (as ! Suc (2 * j))"
      by (auto simp: refat_def)
    with reads have "middleNode2_body (h, refat as j, refat as (2 * j))
        = again (h, refat as (Suc j), refat as (2 * Suc j))"
      by (simp add: middleNode2_body_def)
    moreover have "while_loop middleNode2_body (h, refat as (Suc j), refat as (2 * Suc j))
        = return (h, refat as (length as div 2))"
      using less.hyps[of "Suc j"] more by simp
    ultimately show ?thesis by (simp only: while_loop_Again)
  qed
qed

lemma middleNode2_chain:
  assumes "chain h head as"
  shows "middleNode2 h head = return (h, refat as (length as div 2))"
  using middleNode2_loop[OF assms, of 0] refat_0[OF assms]
  by (simp add: middleNode2_def)

lemma getMid_chain:
  assumes "chain h head as"
  shows "getMid h head = return (h, refat as (length as div 2))"
proof -
  have "getMid_body = middleNode2_body"
    by (simp add: getMid_body_def middleNode2_body_def)
  hence "getMid h head = middleNode2 h head"
    by (simp add: getMid_def middleNode2_def)
  with middleNode2_chain[OF assms] show ?thesis by simp
qed

text \<open>
  C4. For a non-empty acyclic chain of \<open>n\<close> nodes, \<^verbatim>\<open>findMiddle\<close>
  (\<^verbatim>\<open>middleNode2\<close>) returns, without changing the store, the node at
  0-based index \<open>m = n div 2\<close>. When \<open>n\<close> is odd, \<open>n = 2 m + 1\<close>: there are \<open>m\<close>
  nodes before it and \<open>m\<close> after it, it is the exact midpoint. When \<open>n\<close> is
  even, \<open>n = 2 m\<close>: it is the \<open>(n/2 + 1)\<close>-th node counting from 1, the first
  node of the second half.
\<close>

theorem findMiddle_returns_middle:
  assumes "chain h head as" and "as \<noteq> []"
  shows "\<exists>m. middleNode2 h head = return (h, Some (as ! m))
           \<and> (if odd (length as) then length as = 2 * m + 1 else length as = 2 * m)"
proof -
  from assms(2) have "length as div 2 < length as" by (cases as) auto
  hence "refat as (length as div 2) = Some (as ! (length as div 2))"
    by (simp add: refat_def)
  with middleNode2_chain[OF assms(1)]
  have "middleNode2 h head = return (h, Some (as ! (length as div 2)))" by simp
  moreover have "if odd (length as) then length as = 2 * (length as div 2) + 1
                 else length as = 2 * (length as div 2)"
    by (auto elim: oddE)
  ultimately show ?thesis by blast
qed

text \<open>
  The lists of the examples: \<^verbatim>\<open>[1,2,3,4,5]\<close>, \<^verbatim>\<open>[1,2,3,4,5,6]\<close> and \<^verbatim>\<open>[1]\<close>
  as \<^verbatim>\<open>convertArrayToList\<close> builds them in an empty store. The middle nodes
  hold 3, 4 and 1.
\<close>

theorem findMiddle_examples:
  "(\<exists>h. convertArrayToList [] [1, 2, 3, 4, 5] = Inr (h, Some 0)
       \<and> chain h (Some 0) [0, 1, 2, 3, 4]
       \<and> middleNode2 h (Some 0) = return (h, Some 2) \<and> val (h ! 2) = 3)
 \<and> (\<exists>h. convertArrayToList [] [1, 2, 3, 4, 5, 6] = Inr (h, Some 0)
       \<and> chain h (Some 0) [0, 1, 2, 3, 4, 5]
       \<and> middleNode2 h (Some 0) = return (h, Some 3) \<and> val (h ! 3) = 4)
 \<and> (\<exists>h. convertArrayToList [] [1] = Inr (h, Some 0)
       \<and> chain h (Some 0) [0]
       \<and> middleNode2 h (Some 0) = return (h, Some 0) \<and> val (h ! 0) = 1)"
proof -
  let ?h5 = "[\<lparr>val = 1, nxt = Some 1\<rparr>, \<lparr>val = 2, nxt = Some 2\<rparr>, \<lparr>val = 3, nxt = Some 3\<rparr>,
              \<lparr>val = 4, nxt = Some 4\<rparr>, \<lparr>val = 5, nxt = None\<rparr>]"
  let ?h6 = "[\<lparr>val = 1, nxt = Some 1\<rparr>, \<lparr>val = 2, nxt = Some 2\<rparr>, \<lparr>val = 3, nxt = Some 3\<rparr>,
              \<lparr>val = 4, nxt = Some 4\<rparr>, \<lparr>val = 5, nxt = Some 5\<rparr>, \<lparr>val = 6, nxt = None\<rparr>]"
  let ?h1 = "[\<lparr>val = 1, nxt = None\<rparr>]"
  have c5: "chain ?h5 (Some 0) [0, 1, 2, 3, 4]" by simp
  have c6: "chain ?h6 (Some 0) [0, 1, 2, 3, 4, 5]" by simp
  have c1: "chain ?h1 (Some 0) [0]" by simp
  have "middleNode2 ?h5 (Some 0) = return (?h5, Some 2)"
    using findMiddle_returns_middle[OF c5] by auto
  moreover have "middleNode2 ?h6 (Some 0) = return (?h6, Some 3)"
    using findMiddle_returns_middle[OF c6] by auto
  moreover have "middleNode2 ?h1 (Some 0) = return (?h1, Some 0)"
    using findMiddle_returns_middle[OF c1] by auto
  moreover have "convertArrayToList [] [1, 2, 3, 4, 5] = Inr (?h5, Some 0)"
    "convertArrayToList [] [1, 2, 3, 4, 5, 6] = Inr (?h6, Some 0)"
    "convertArrayToList [] [1] = Inr (?h1, Some 0)"
    by (simp_all add: convertArrayToList_def Node_def)
  ultimately show ?thesis using c5 c6 c1 by simp
qed

subsection \<open>Reversal\<close>

lemma vals_same:
  assumes "map val h' = map val h" and "\<forall>a \<in> set as. a < length h"
  shows "vals h' as = vals h as"
  using assms by (auto simp: vals_def intro: map_val_nth)

lemma chain_vals_same:
  "chain h p as \<Longrightarrow> map val h' = map val h \<Longrightarrow> vals h' as = vals h as"
  by (rule vals_same) (auto dest: chain_in_heap)

lemma reverseList_loop:
  "chain h old as \<Longrightarrow> chain h new bs \<Longrightarrow> set as \<inter> set bs = {} \<Longrightarrow>
   \<exists>h'. while_loop reverseList_body (h, old, new)
           = return (h', if as = [] then new else Some (last as))
       \<and> chain h' (if as = [] then new else Some (last as)) (rev as @ bs)
       \<and> map val h' = map val h
       \<and> (\<forall>x. x \<notin> set as \<longrightarrow> h' ! x = h ! x)"
proof (induction as arbitrary: h old new bs)
  case Nil
  hence "reverseList_body (h, old, new) = leave (h, new)"
    by (simp add: reverseList_body_def)
  hence "while_loop reverseList_body (h, old, new) = return (h, new)"
    by (rule while_loop_Leave)
  with Nil show ?case by simp
next
  case (Cons a as)
  let ?h1 = "h[a := (h ! a)\<lparr>nxt := new\<rparr>]"
  from Cons.prems have a: "old = Some a" "a < length h" and rest: "chain h (nxt (h ! a)) as"
    by simp_all
  from Cons.prems(1) have "distinct (a # as)" by (rule chain_distinct)
  hence fresh: "a \<notin> set as" by simp
  from Cons.prems(3) have a_bs: "a \<notin> set bs" by auto
  have step: "reverseList_body (h, old, new) = again (?h1, nxt (h ! a), Some a)"
    using a by (simp add: reverseList_body_def)
  have "chain ?h1 (nxt (h ! a)) as" using rest fresh by simp
  moreover have "chain ?h1 (Some a) (a # bs)" using a a_bs Cons.prems(2) by simp
  moreover have "set as \<inter> set (a # bs) = {}" using Cons.prems(3) fresh by auto
  ultimately obtain h' where
    run: "while_loop reverseList_body (?h1, nxt (h ! a), Some a)
            = return (h', if as = [] then Some a else Some (last as))"
    and ch: "chain h' (if as = [] then Some a else Some (last as)) (rev as @ a # bs)"
    and vs: "map val h' = map val ?h1"
    and fr: "\<forall>x. x \<notin> set as \<longrightarrow> h' ! x = ?h1 ! x"
    using Cons.IH[of ?h1 "nxt (h ! a)" "Some a" "a # bs"] by blast
  have "while_loop reverseList_body (h, old, new)
          = return (h', if a # as = [] then new else Some (last (a # as)))"
    using run step by (simp add: while_loop_Again)
  moreover have "chain h' (if a # as = [] then new else Some (last (a # as))) (rev (a # as) @ bs)"
    using ch by (cases "as = []") simp_all
  moreover have "map val h' = map val h" using vs by simp
  moreover have "\<forall>x. x \<notin> set (a # as) \<longrightarrow> h' ! x = h ! x" using fr by simp
  ultimately show ?case by blast
qed

lemma reverseList_chain:
  assumes "chain h p as"
  shows "\<exists>h' r. reverseList h p = return (h', r) \<and> chain h' r (rev as)
           \<and> map val h' = map val h \<and> (\<forall>x. x \<notin> set as \<longrightarrow> h' ! x = h ! x)"
  using reverseList_loop[OF assms, of None "[]"] by (auto simp: reverseList_def)

lemma reverseList_palindrome_eq: "reverseList_palindrome = reverseList"
proof -
  have "reverseList_palindrome_body = reverseList_body"
    by (simp add: reverseList_palindrome_body_def reverseList_body_def)
  thus ?thesis
    by (intro ext) (simp add: reverseList_palindrome_def reverseList_def)
qed

lemma reverseList_twice:
  assumes "chain h C as"
  shows "\<exists>h1 r1 h2 r2. reverseList h C = return (h1, r1) \<and> reverseList h1 r1 = return (h2, r2)
           \<and> chain h2 r2 as \<and> vals h2 as = vals h as"
proof -
  from reverseList_chain[OF assms] obtain h1 r1 where
    one: "reverseList h C = return (h1, r1)" "chain h1 r1 (rev as)" "map val h1 = map val h"
    by blast
  from reverseList_chain[OF one(2)] obtain h2 r2 where
    two: "reverseList h1 r1 = return (h2, r2)" "chain h2 r2 (rev (rev as))"
      "map val h2 = map val h1"
    by blast
  from one(3) two(3) have "map val h2 = map val h" by simp
  with assms have "vals h2 as = vals h as" by (intro chain_vals_same)
  with one(1) two(1) two(2) show ?thesis by auto
qed

text \<open>
  C9. For every acyclic chain \<open>C\<close>, both \<^verbatim>\<open>reverseList\<close> functions (of
  \<^verbatim>\<open>build_linked_list.py\<close> and of \<^verbatim>\<open>palindrome.py\<close>) return, and reversing
  the result of reversing \<open>C\<close> yields a chain (of the same nodes, in the
  original order) with the same sequence of values as \<open>C\<close>.
\<close>

theorem reverse_reverse_same_values:
  assumes "chain h C as"
  shows "(\<exists>h1 r1 h2 r2. reverseList h C = return (h1, r1)
            \<and> reverseList h1 r1 = return (h2, r2)
            \<and> chain h2 r2 as \<and> vals h2 as = vals h as)
       \<and> (\<exists>h1 r1 h2 r2. reverseList_palindrome h C = return (h1, r1)
            \<and> reverseList_palindrome h1 r1 = return (h2, r2)
            \<and> chain h2 r2 as \<and> vals h2 as = vals h as)"
  using reverseList_twice[OF assms] by (simp add: reverseList_palindrome_eq)

text \<open>
  The list \<^verbatim>\<open>[1,2,3]\<close>: its reversal holds 3, 2, 1, and reversing again gives
  back 1, 2, 3.
\<close>

theorem reverse_reverse_example:
  "chain [\<lparr>val = 1, nxt = Some 1\<rparr>, \<lparr>val = 2, nxt = Some 2\<rparr>, \<lparr>val = 3, nxt = None\<rparr>] (Some 0) [0, 1, 2]
   \<and> (\<exists>h1 r1 h2 r2.
         reverseList [\<lparr>val = 1, nxt = Some 1\<rparr>, \<lparr>val = 2, nxt = Some 2\<rparr>, \<lparr>val = 3, nxt = None\<rparr>] (Some 0)
           = return (h1, r1)
       \<and> reverseList h1 r1 = return (h2, r2)
       \<and> chain h2 r2 [0, 1, 2] \<and> vals h2 [0, 1, 2] = [1, 2, 3])"
proof -
  let ?h = "[\<lparr>val = 1, nxt = Some 1\<rparr>, \<lparr>val = 2, nxt = Some 2\<rparr>, \<lparr>val = 3, nxt = None\<rparr>]"
  have c: "chain ?h (Some 0) [0, 1, 2]" by simp
  have "vals ?h [0, 1, 2] = [1, 2, 3]" by (simp add: vals_def)
  with reverse_reverse_same_values[OF c] c show ?thesis by simp
qed

lemma while_loop_step:
  "body s = again s' \<Longrightarrow> while_loop body s' = r \<Longrightarrow> while_loop body s = r"
  by (subst while_loop.simps) simp

subsection \<open>Counting and the palindrome test\<close>

lemma listLength_loop:
  "chain h p as \<Longrightarrow> while_loop listLength_body (h, p, c) = return (h, c + int (length as))"
proof (induction as arbitrary: p c)
  case Nil
  hence "listLength_body (h, p, c) = leave (h, c)" by (simp add: listLength_body_def)
  thus ?case by (simp add: while_loop_Leave)
next
  case (Cons a as)
  hence "listLength_body (h, p, c) = again (h, nxt (h ! a), c + 1)"
    by (simp add: listLength_body_def)
  moreover have "while_loop listLength_body (h, nxt (h ! a), c + 1)
      = return (h, c + int (length (a # as)))"
    using Cons.IH[of "nxt (h ! a)" "c + 1"] Cons.prems by simp
  ultimately show ?case by (rule while_loop_step)
qed

lemma listLength_chain: "chain h p as \<Longrightarrow> listLength h p = return (h, int (length as))"
  using listLength_loop[of h p as 0] by (simp add: listLength_def)

lemma countNodes_chain: "chain h p as \<Longrightarrow> countNodes h p = return (h, int (length as))"
proof -
  have "countNodes_body = listLength_body"
    by (simp add: countNodes_body_def listLength_body_def)
  hence "countNodes h p = listLength h p" by (simp add: countNodes_def listLength_def)
  thus "chain h p as \<Longrightarrow> ?thesis" by (simp add: listLength_chain)
qed

lemma isPalidrome_loop:
  "path h hd' xs q \<Longrightarrow> chain h nl ys \<Longrightarrow> length ys \<le> length xs \<Longrightarrow>
   while_loop isPalidrome_body (h, hd', nl)
     = return (h, take (length ys) (vals h xs) = vals h ys)"
proof (induction ys arbitrary: xs hd' nl)
  case Nil
  hence "isPalidrome_body (h, hd', nl) = leave (h, True)"
    by (simp add: isPalidrome_body_def)
  thus ?case by (simp add: while_loop_Leave vals_def)
next
  case (Cons y ys)
  then obtain x xs' where xs: "xs = x # xs'" by (cases xs) auto
  with Cons.prems have x: "hd' = Some x" "x < length h" "path h (nxt (h ! x)) xs' q"
    and y: "nl = Some y" "y < length h" "chain h (nxt (h ! y)) ys"
    and len: "length ys \<le> length xs'"
    by simp_all
  show ?case
  proof (cases "val (h ! x) = val (h ! y)")
    case False
    with x y have "isPalidrome_body (h, hd', nl) = leave (h, False)"
      by (simp add: isPalidrome_body_def)
    hence "while_loop isPalidrome_body (h, hd', nl) = return (h, False)"
      by (rule while_loop_Leave)
    with False xs show ?thesis by (simp add: vals_def)
  next
    case True
    with x y have "isPalidrome_body (h, hd', nl) = again (h, nxt (h ! x), nxt (h ! y))"
      by (simp add: isPalidrome_body_def)
    moreover have "while_loop isPalidrome_body (h, nxt (h ! x), nxt (h ! y))
        = return (h, take (length ys) (vals h xs') = vals h ys)"
      using x(3) y(3) len by (rule Cons.IH)
    ultimately have "while_loop isPalidrome_body (h, hd', nl)
        = return (h, take (length ys) (vals h xs') = vals h ys)"
      by (rule while_loop_step)
    with True xs show ?thesis by (simp add: vals_def)
  qed
qed

text \<open>
  A sequence split into a front part and a back part of the same length, or
  with one more element in front, reads the same in both directions exactly
  when the front starts with the reversed back.
\<close>

lemma palindrome_halves:
  fixes f b :: "'a list"
  assumes "length f = length b \<or> length f = Suc (length b)"
  shows "(f @ b = rev (f @ b)) \<longleftrightarrow> (take (length b) f = rev b)"
proof
  assume "f @ b = rev (f @ b)"
  hence "take (length b) (f @ b) = take (length b) (rev b @ rev f)" by simp
  with assms show "take (length b) f = rev b" by auto
next
  assume eq: "take (length b) f = rev b"
  define m where "m = drop (length b) f"
  from assms have "length m \<le> 1" by (auto simp: m_def)
  hence "rev m = m" by (cases m) auto
  moreover have f: "f = rev b @ m"
    using eq append_take_drop_id[of "length b" f] by (simp add: m_def)
  ultimately show "f @ b = rev (f @ b)" by simp
qed

lemma isPalidrome_chain:
  assumes "chain h head as"
  shows "\<exists>h'. isPalidrome h head = return (h', vals h as = rev (vals h as))"
proof -
  define n where "n = length as"
  define m where "m = (n + 1) div 2"
  define front where "front = take m as"
  define rear where "rear = drop m as"
  have split: "as = front @ rear" by (simp add: front_def rear_def)
  have lens: "length front = length rear \<or> length front = Suc (length rear)"
    unfolding front_def rear_def m_def n_def by (cases "even (length as)") (auto elim!: evenE oddE)
  have mid: "getMid h head = return (h, refat as (n div 2))"
    using getMid_chain[OF assms] by (simp add: n_def)
  have len: "listLength h head = return (h, int n)"
    using listLength_chain[OF assms] by (simp add: n_def)
  have mid': "(if int n mod 2 = 1 then get_next h (refat as (n div 2)) else Inr (refat as (n div 2)))
      = Inr (refat as m)"
  proof (cases "even n")
    case True
    hence "int n mod 2 \<noteq> 1" by presburger
    moreover from True have "m = n div 2" unfolding m_def by (auto elim!: evenE)
    ultimately show ?thesis by simp
  next
    case False
    hence "int n mod 2 = 1" by presburger
    moreover from False have "m = Suc (n div 2)" unfolding m_def by (auto elim!: oddE)
    moreover from False have "n div 2 < length as" unfolding n_def by (auto elim!: oddE)
    ultimately show ?thesis using get_next_refat[OF assms, of "n div 2"] by simp
  qed
  have rear: "chain h (refat as m) rear" unfolding rear_def using assms by (rule chain_drop)
  then obtain h3 r where rev: "reverseList_palindrome h (refat as m) = return (h3, r)"
    and rrear: "chain h3 r (rev rear)" and v3: "map val h3 = map val h"
    and frame: "\<forall>x. x \<notin> set rear \<longrightarrow> h3 ! x = h ! x"
    using reverseList_chain[of h "refat as m" rear] by (auto simp: reverseList_palindrome_eq)
  have "distinct as" using assms by (rule chain_distinct)
  hence disj: "set front \<inter> set rear = {}" using split by simp
  have "path h head front (refat as m)" unfolding front_def using assms by (rule path_take)
  moreover have "length h3 = length h" using v3 by (rule map_val_length)
  moreover have "\<forall>a \<in> set front. nxt (h3 ! a) = nxt (h ! a)" using frame disj by auto
  ultimately have pfront: "path h3 head front (refat as m)"
    using path_frame[of h3 h front head "refat as m"] by blast
  have "length (rev rear) \<le> length front" using lens by auto
  with pfront rrear
  have "while_loop isPalidrome_body (h3, head, r)
      = return (h3, take (length (rev rear)) (vals h3 front) = vals h3 (rev rear))"
    by (rule isPalidrome_loop)
  moreover have "vals h3 front = vals h front"
    using v3 assms split by (auto intro!: vals_same dest: chain_in_heap)
  moreover have "vals h3 (rev rear) = rev (vals h rear)"
  proof -
    have "vals h3 rear = vals h rear"
      using v3 assms split by (auto intro!: vals_same dest: chain_in_heap)
    thus ?thesis by (simp add: vals_def rev_map)
  qed
  moreover have "length (rev rear) = length (vals h rear)" by (simp add: vals_def)
  ultimately have run: "while_loop isPalidrome_body (h3, head, r)
      = return (h3, take (length (vals h rear)) (vals h front) = rev (vals h rear))"
    by simp
  have "vals h as = vals h front @ vals h rear" using split by (simp add: vals_def)
  moreover have "(vals h front @ vals h rear = rev (vals h front @ vals h rear))
      \<longleftrightarrow> (take (length (vals h rear)) (vals h front) = rev (vals h rear))"
    using lens by (intro palindrome_halves) (simp add: vals_def)
  ultimately have "while_loop isPalidrome_body (h3, head, r)
      = return (h3, vals h as = rev (vals h as))"
    using run by simp
  thus ?thesis using mid len mid' rev by (auto simp: isPalidrome_def)
qed


text \<open>
  C5. For every acyclic chain, \<^verbatim>\<open>isPalindrome\<close> (\<^verbatim>\<open>isPalidrome\<close>) returns,
  and it returns true exactly when the chain's sequence of values equals its
  own reverse; for chains of length 0 or 1 it returns true.
\<close>

theorem isPalindrome_iff_reverse:
  assumes "chain h head as"
  shows "\<exists>h' b. isPalidrome h head = return (h', b)
           \<and> (b \<longleftrightarrow> vals h as = rev (vals h as))
           \<and> (length as \<le> 1 \<longrightarrow> b)"
proof -
  from isPalidrome_chain[OF assms] obtain h' where
    "isPalidrome h head = return (h', vals h as = rev (vals h as))" ..
  moreover have "length as \<le> 1 \<longrightarrow> vals h as = rev (vals h as)"
    by (cases as) (auto simp: vals_def)
  ultimately show ?thesis by blast
qed

text \<open>
  The lists of the examples, as \<^verbatim>\<open>convertArrayToList\<close> builds them:
  \<^verbatim>\<open>[1,2,3,4,4,3,2,1]\<close> and \<^verbatim>\<open>[1,2,3,2,1]\<close> give true, \<^verbatim>\<open>[1,2,3]\<close> and
  \<^verbatim>\<open>[1,2]\<close> give false, the empty list and \<^verbatim>\<open>[1]\<close> give true.
\<close>

theorem isPalindrome_examples:
  "(\<exists>h h'. convertArrayToList [] [1, 2, 3, 4, 4, 3, 2, 1] = Inr (h, Some 0)
       \<and> chain h (Some 0) [0, 1, 2, 3, 4, 5, 6, 7]
       \<and> isPalidrome h (Some 0) = return (h', True))
 \<and> (\<exists>h h'. convertArrayToList [] [1, 2, 3, 2, 1] = Inr (h, Some 0)
       \<and> chain h (Some 0) [0, 1, 2, 3, 4]
       \<and> isPalidrome h (Some 0) = return (h', True))
 \<and> (\<exists>h h'. convertArrayToList [] [1, 2, 3] = Inr (h, Some 0)
       \<and> chain h (Some 0) [0, 1, 2]
       \<and> isPalidrome h (Some 0) = return (h', False))
 \<and> (\<exists>h h'. convertArrayToList [] [1, 2] = Inr (h, Some 0)
       \<and> chain h (Some 0) [0, 1]
       \<and> isPalidrome h (Some 0) = return (h', False))
 \<and> (\<exists>h h'. convertArrayToList [] [1] = Inr (h, Some 0)
       \<and> chain h (Some 0) [0]
       \<and> isPalidrome h (Some 0) = return (h', True))
 \<and> (\<exists>h'. convertArrayToList [] [] = Inr ([], None)
       \<and> chain [] None []
       \<and> isPalidrome [] None = return (h', True))"
proof -
  let ?h8 = "[\<lparr>val = 1, nxt = Some 1\<rparr>, \<lparr>val = 2, nxt = Some 2\<rparr>, \<lparr>val = 3, nxt = Some 3\<rparr>,
              \<lparr>val = 4, nxt = Some 4\<rparr>, \<lparr>val = 4, nxt = Some 5\<rparr>, \<lparr>val = 3, nxt = Some 6\<rparr>,
              \<lparr>val = 2, nxt = Some 7\<rparr>, \<lparr>val = 1, nxt = None\<rparr>]"
  let ?h5 = "[\<lparr>val = 1, nxt = Some 1\<rparr>, \<lparr>val = 2, nxt = Some 2\<rparr>, \<lparr>val = 3, nxt = Some 3\<rparr>,
              \<lparr>val = 2, nxt = Some 4\<rparr>, \<lparr>val = 1, nxt = None\<rparr>]"
  let ?h3 = "[\<lparr>val = 1, nxt = Some 1\<rparr>, \<lparr>val = 2, nxt = Some 2\<rparr>, \<lparr>val = 3, nxt = None\<rparr>]"
  let ?h2 = "[\<lparr>val = 1, nxt = Some 1\<rparr>, \<lparr>val = 2, nxt = None\<rparr>]"
  let ?h1 = "[\<lparr>val = 1, nxt = None\<rparr>]"
  have c8: "chain ?h8 (Some 0) [0, 1, 2, 3, 4, 5, 6, 7]" by simp
  have c5: "chain ?h5 (Some 0) [0, 1, 2, 3, 4]" by simp
  have c3: "chain ?h3 (Some 0) [0, 1, 2]" by simp
  have c2: "chain ?h2 (Some 0) [0, 1]" by simp
  have c1: "chain ?h1 (Some 0) [0]" by simp
  have c0: "chain [] None []" by simp
  have "\<exists>h'. isPalidrome ?h8 (Some 0) = return (h', True)"
    using isPalindrome_iff_reverse[OF c8] by (auto simp: vals_def)
  moreover have "\<exists>h'. isPalidrome ?h5 (Some 0) = return (h', True)"
    using isPalindrome_iff_reverse[OF c5] by (auto simp: vals_def)
  moreover have "\<exists>h'. isPalidrome ?h3 (Some 0) = return (h', False)"
    using isPalindrome_iff_reverse[OF c3] by (auto simp: vals_def)
  moreover have "\<exists>h'. isPalidrome ?h2 (Some 0) = return (h', False)"
    using isPalindrome_iff_reverse[OF c2] by (auto simp: vals_def)
  moreover have "\<exists>h'. isPalidrome ?h1 (Some 0) = return (h', True)"
    using isPalindrome_iff_reverse[OF c1] by (auto simp: vals_def)
  moreover have "\<exists>h'. isPalidrome [] None = return (h', True)"
    using isPalindrome_iff_reverse[OF c0] by (auto simp: vals_def)
  moreover have "convertArrayToList [] [1, 2, 3, 4, 4, 3, 2, 1] = Inr (?h8, Some 0)"
    "convertArrayToList [] [1, 2, 3, 2, 1] = Inr (?h5, Some 0)"
    "convertArrayToList [] [1, 2, 3] = Inr (?h3, Some 0)"
    "convertArrayToList [] [1, 2] = Inr (?h2, Some 0)"
    "convertArrayToList [] [1] = Inr (?h1, Some 0)"
    "convertArrayToList [] [] = Inr ([], None)"
    by (simp_all add: convertArrayToList_def Node_def)
  ultimately show ?thesis using c8 c5 c3 c2 c1 c0 by simp
qed

subsection \<open>Loops that do not write\<close>

lemma get_next_raises: "get_next h p = Inl (e, h') \<Longrightarrow> h' = h"
  by (auto simp: get_next_def split: option.splits if_splits)

lemma ebind_cases:
  "ebind x f = Some y \<Longrightarrow>
   (\<exists>e. x = Inl e \<and> y = Inl e) \<or> (\<exists>v. x = Inr v \<and> f v = Some y)"
  by (cases x) simp_all

lemma while_loop_keeps:
  fixes body :: "heap \<times> 'v \<Rightarrow> (heap \<times> 'v, heap \<times> 'r) step result option"
  assumes run: "while_loop body s = Some out"
    and again: "\<And>s s'. body s = again s' \<Longrightarrow> fst s' = fst s"
    and leave: "\<And>s r. body s = leave r \<Longrightarrow> fst r = fst s"
    and raise: "\<And>s e h'. body s = Some (Inl (e, h')) \<Longrightarrow> h' = fst s"
  shows "store_of out = fst s"
proof -
  have "body = body \<longrightarrow> store_of out = fst s"
  proof (rule while_loop.raw_induct[where P = "\<lambda>b s out. b = body \<longrightarrow> store_of out = fst s"
        and body = body and s = s and y = out])
    show "while_loop body s = Some out" by (rule run)
  next
    fix loop :: "(heap \<times> 'v \<Rightarrow> (heap \<times> 'v, heap \<times> 'r) step result option)
                   \<Rightarrow> heap \<times> 'v \<Rightarrow> (heap \<times> 'r) result option"
    fix b s out
    assume IH: "\<And>b s out. loop b s = Some out \<Longrightarrow> b = body \<longrightarrow> store_of out = fst s"
      and unfold: "(case b s of None \<Rightarrow> None | Some (Inl e) \<Rightarrow> Some (Inl e)
                     | Some (Inr (Again s')) \<Rightarrow> loop b s'
                     | Some (Inr (Leave r)) \<Rightarrow> return r) = Some out"
    show "b = body \<longrightarrow> store_of out = fst s"
    proof
      assume b: "b = body"
      show "store_of out = fst s"
      proof (cases "body s")
        case None
        with unfold b show ?thesis by simp
      next
        case (Some x)
        show ?thesis
        proof (cases x)
          case (Inl eh)
          obtain e h' where eh: "eh = (e, h')" by (cases eh) auto
          with Some Inl have "h' = fst s" by (intro raise[of s e h']) simp
          moreover from Some Inl eh unfold b have "out = Inl (e, h')" by simp
          ultimately show ?thesis by (simp add: store_of_def)
        next
          case (Inr stp)
          show ?thesis
          proof (cases stp)
            case (Again s')
            with Some Inr unfold b have "loop body s' = Some out" by simp
            from IH[OF this] have "store_of out = fst s'" by simp
            moreover have "fst s' = fst s" using Some Inr Again by (intro again) simp
            ultimately show ?thesis by simp
          next
            case (Leave r)
            with Some Inr have "fst r = fst s" by (intro leave) simp
            moreover from Some Inr Leave unfold b have "out = Inr r" by simp
            ultimately show ?thesis by (cases r) (simp add: store_of_def)
          qed
        qed
      qed
    qed
  qed
  thus ?thesis by simp
qed

lemma detectCycle2_body_again: "detectCycle2_body s = again s' \<Longrightarrow> fst s' = fst s"
  by (auto simp: detectCycle2_body_def split: prod.splits if_splits dest!: ebind_cases)

lemma detectCycle2_body_leave: "detectCycle2_body s = leave r \<Longrightarrow> fst r = fst s"
  by (auto simp: detectCycle2_body_def split: prod.splits if_splits dest!: ebind_cases)

lemma detectCycle2_body_raise: "detectCycle2_body s = Some (Inl (e, h')) \<Longrightarrow> h' = fst s"
  by (auto simp: detectCycle2_body_def split: prod.splits if_splits
      dest!: ebind_cases dest: get_next_raises)

lemma detectCycle2_entry_again: "detectCycle2_entry s = again s' \<Longrightarrow> fst s' = fst s"
  by (auto simp: detectCycle2_entry_def split: prod.splits if_splits dest!: ebind_cases)

lemma detectCycle2_entry_leave: "detectCycle2_entry s = leave r \<Longrightarrow> fst r = fst s"
  by (auto simp: detectCycle2_entry_def split: prod.splits if_splits dest!: ebind_cases)

lemma detectCycle2_entry_raise: "detectCycle2_entry s = Some (Inl (e, h')) \<Longrightarrow> h' = fst s"
  by (auto simp: detectCycle2_entry_def split: prod.splits if_splits
      dest!: ebind_cases dest: get_next_raises)

lemma intersect_body_again: "intersect_body headA headB s = again s' \<Longrightarrow> fst s' = fst s"
  by (auto simp: intersect_body_def split: prod.splits if_splits dest!: ebind_cases)

lemma intersect_body_leave: "intersect_body headA headB s = leave r \<Longrightarrow> fst r = fst s"
  by (auto simp: intersect_body_def split: prod.splits if_splits dest!: ebind_cases)

lemma intersect_body_raise:
  "intersect_body headA headB s = Some (Inl (e, h')) \<Longrightarrow> h' = fst s"
  by (auto simp: intersect_body_def split: prod.splits if_splits
      dest!: ebind_cases dest: get_next_raises)

lemma detectCycle2_keeps:
  assumes "detectCycle2 h head = Some out"
  shows "store_of out = h"
proof (cases "while_loop detectCycle2_body (h, head, head, False)")
  case None
  with assms show ?thesis by (simp add: detectCycle2_def)
next
  case (Some first)
  show ?thesis
  proof (cases first)
    case (Inl eh)
    obtain e h1 where eh: "eh = (e, h1)" by (cases eh) auto
    have "while_loop detectCycle2_body (h, head, head, False) = Some (Inl (e, h1))"
      using Some Inl eh by simp
    hence "store_of (Inl (e, h1) :: (heap \<times> ref \<times> ref \<times> bool) result) = fst (h, head, head, False)"
      by (rule while_loop_keeps)
        (erule detectCycle2_body_again detectCycle2_body_leave detectCycle2_body_raise)+
    hence "h1 = h" by (simp add: store_of_def)
    with Some Inl eh assms show ?thesis by (auto simp: detectCycle2_def store_of_def)
  next
    case (Inr r)
    obtain h1 fast slow isCycle where r: "r = (h1, fast, slow, isCycle)" by (cases r) auto
    have "while_loop detectCycle2_body (h, head, head, False) = Some (Inr (h1, fast, slow, isCycle))"
      using Some Inr r by simp
    hence "store_of (Inr (h1, fast, slow, isCycle)) = fst (h, head, head, False)"
      by (rule while_loop_keeps)
        (erule detectCycle2_body_again detectCycle2_body_leave detectCycle2_body_raise)+
    hence h1: "h1 = h" by (simp add: store_of_def)
    show ?thesis
    proof (cases isCycle)
      case False
      with Some Inr r h1 assms show ?thesis by (auto simp: detectCycle2_def store_of_def)
    next
      case True
      with Some Inr r h1 assms have "while_loop detectCycle2_entry (h, head, slow) = Some out"
        by (simp add: detectCycle2_def)
      hence "store_of out = fst (h, head, slow)"
        by (rule while_loop_keeps)
          (erule detectCycle2_entry_again detectCycle2_entry_leave detectCycle2_entry_raise)+
      thus ?thesis by simp
    qed
  qed
qed

lemma intersect_keeps:
  assumes "intersect h headA headB = Some out"
  shows "store_of out = h"
proof -
  from assms have "while_loop (intersect_body headA headB) (h, headA, headB) = Some out"
    by (simp add: intersect_def)
  hence "store_of out = fst (h, headA, headB)"
    by (rule while_loop_keeps)
      (erule intersect_body_again intersect_body_leave intersect_body_raise)+
  thus ?thesis by simp
qed

text \<open>
  C10. \<^verbatim>\<open>detectCycleEntry\<close> (\<^verbatim>\<open>detectCycle2\<close>) and \<^verbatim>\<open>findIntersection\<close>
  (\<^verbatim>\<open>intersect\<close>) never change the store: for every store and every argument,
  cyclic or not, a call that ends (by returning or by raising) ends in the
  store it started in, so that every node has the value and the \<^verbatim>\<open>next\<close> it
  had before the call.
\<close>

theorem cycle_tolerant_keep_store:
  "(detectCycle2 h head = Some out \<longrightarrow> store_of out = h)
 \<and> (intersect h headA headB = Some out' \<longrightarrow> store_of out' = h)"
  using detectCycle2_keeps[of h head out] intersect_keeps[of h headA headB out']
  by blast

text \<open>
  A chain of three nodes whose last node points back to the second, and two
  chains that share their last node: both calls return, in the same store.
\<close>

theorem cycle_tolerant_keep_store_example:
  "(\<exists>out. detectCycle2 [\<lparr>val = 1, nxt = Some 1\<rparr>, \<lparr>val = 2, nxt = Some 2\<rparr>,
                        \<lparr>val = 3, nxt = Some 1\<rparr>] (Some 0) = Some out
       \<and> store_of out = [\<lparr>val = 1, nxt = Some 1\<rparr>, \<lparr>val = 2, nxt = Some 2\<rparr>,
                        \<lparr>val = 3, nxt = Some 1\<rparr>])
 \<and> (\<exists>out. intersect [\<lparr>val = 1, nxt = Some 2\<rparr>, \<lparr>val = 2, nxt = Some 2\<rparr>,
                      \<lparr>val = 3, nxt = None\<rparr>] (Some 0) (Some 1) = Some out
       \<and> store_of out = [\<lparr>val = 1, nxt = Some 2\<rparr>, \<lparr>val = 2, nxt = Some 2\<rparr>,
                        \<lparr>val = 3, nxt = None\<rparr>])"
proof -
  let ?c = "[\<lparr>val = 1, nxt = Some 1\<rparr>, \<lparr>val = 2, nxt = Some 2\<rparr>, \<lparr>val = 3, nxt = Some 1\<rparr>]"
  let ?y = "[\<lparr>val = 1, nxt = Some 2\<rparr>, \<lparr>val = 2, nxt = Some 2\<rparr>, \<lparr>val = 3, nxt = None\<rparr>]"
  have d: "detectCycle2 ?c (Some 0) = return (?c, Some 1)" by code_simp
  have i: "intersect ?y (Some 0) (Some 1) = return (?y, Some 2)" by code_simp
  from cycle_tolerant_keep_store[where h = ?c and head = "Some 0" and out = "Inr (?c, Some 1)"]
    cycle_tolerant_keep_store[where h = ?y and headA = "Some 0" and headB = "Some 1"
      and out' = "Inr (?y, Some 2)"] d i
  show ?thesis by simp
qed

subsection \<open>Cycle detection on an acyclic chain\<close>

lemma refat_inj:
  assumes "distinct as" "j < length as" "refat as k = refat as j"
  shows "k = j"
proof -
  from assms(2,3) have k: "k < length as" and eq: "as ! k = as ! j"
    by (simp_all add: refat_def split: if_splits)
  with assms(1,2) show ?thesis by (simp add: nth_eq_iff_index_eq)
qed

lemma detectCycle2_body_acyclic:
  assumes "chain h p as"
  shows "2 * j \<le> length as \<Longrightarrow>
    \<exists>out. while_loop detectCycle2_body (h, refat as (2 * j), refat as j, False) = Some out
       \<and> (case out of Inl (e, h') \<Rightarrow> True | Inr (h', fast, slow, isCycle) \<Rightarrow> \<not> isCycle)"
proof (induction "length as - 2 * j" arbitrary: j rule: less_induct)
  case less
  have dist: "distinct as" using assms by (rule chain_distinct)
  consider (fast_end) "2 * j = length as" | (fast_last) "Suc (2 * j) = length as"
    | (more) "Suc (2 * j) < length as"
    using less.prems by linarith
  then show ?case
  proof cases
    case fast_end
    hence "refat as (2 * j) = None" by (simp add: refat_def)
    hence "detectCycle2_body (h, refat as (2 * j), refat as j, False)
        = leave (h, refat as (2 * j), refat as j, False)"
      by (simp add: detectCycle2_body_def)
    hence "while_loop detectCycle2_body (h, refat as (2 * j), refat as j, False)
        = return (h, refat as (2 * j), refat as j, False)"
      by (rule while_loop_Leave)
    thus ?thesis by simp
  next
    case fast_last
    hence "get_next h (refat as (2 * j)) = Inr (refat as (Suc (2 * j)))"
      using get_next_refat[OF assms, of "2 * j"] by simp
    moreover from fast_last have "refat as (Suc (2 * j)) = None"
      "refat as (2 * j) = Some (as ! (2 * j))" "refat as j = Some (as ! j)"
      by (auto simp: refat_def)
    ultimately have "detectCycle2_body (h, refat as (2 * j), refat as j, False)
        = Some (Inl (AttributeError, h))"
      by (simp add: detectCycle2_body_def)
    hence "while_loop detectCycle2_body (h, refat as (2 * j), refat as j, False)
        = Some (Inl (AttributeError, h))"
      by (rule while_loop_Raise)
    thus ?thesis by simp
  next
    case more
    hence reads: "get_next h (refat as (2 * j)) = Inr (refat as (Suc (2 * j)))"
      "get_next h (refat as (Suc (2 * j))) = Inr (refat as (2 * Suc j))"
      "get_next h (refat as j) = Inr (refat as (Suc j))"
      using get_next_refat[OF assms, of "2 * j"] get_next_refat[OF assms, of "Suc (2 * j)"]
        get_next_refat[OF assms, of j] by simp_all
    from more have some: "refat as (2 * j) = Some (as ! (2 * j))" "refat as j = Some (as ! j)"
      by (auto simp: refat_def)
    have "refat as (2 * Suc j) \<noteq> refat as (Suc j)"
    proof
      assume "refat as (2 * Suc j) = refat as (Suc j)"
      with dist have "2 * Suc j = Suc j" using more by (intro refat_inj) auto
      thus False by simp
    qed
    with reads some have step: "detectCycle2_body (h, refat as (2 * j), refat as j, False)
        = again (h, refat as (2 * Suc j), refat as (Suc j), False)"
      by (simp add: detectCycle2_body_def)
    have "length as - 2 * Suc j < length as - 2 * j" "2 * Suc j \<le> length as"
      using more by simp_all
    from less.hyps[OF this] obtain out where
      run: "while_loop detectCycle2_body (h, refat as (2 * Suc j), refat as (Suc j), False) = Some out"
      and flag: "case out of Inl (e, h') \<Rightarrow> True | Inr (h', fast, slow, isCycle) \<Rightarrow> \<not> isCycle"
      by blast
    from step run have "while_loop detectCycle2_body (h, refat as (2 * j), refat as j, False) = Some out"
      by (rule while_loop_step)
    with flag show ?thesis by blast
  qed
qed

lemma detectCycle2_acyclic:
  assumes "chain h head as"
  shows "detectCycle2 h head = return (h, None)"
proof -
  from detectCycle2_body_acyclic[OF assms, of 0] obtain out where
    run: "while_loop detectCycle2_body (h, head, head, False) = Some out"
    and flag: "case out of Inl (e, h') \<Rightarrow> True | Inr (h', fast, slow, isCycle) \<Rightarrow> \<not> isCycle"
    using refat_0[OF assms] by auto
  hence "\<exists>r. detectCycle2 h head = return (r, None)"
    by (auto simp: detectCycle2_def split: sum.splits prod.splits)
  then obtain r where r: "detectCycle2 h head = return (r, None)" ..
  from detectCycle2_keeps[OF this] have "r = h" by (simp add: store_of_def)
  with r show ?thesis by simp
qed

subsection \<open>Cycle detection on a chain with a cycle\<close>

lemma path_nth:
  "path h p as q \<Longrightarrow> k < length as \<Longrightarrow>
   as ! k < length h \<and> nxt (h ! (as ! k)) = (if Suc k < length as then Some (as ! Suc k) else q)"
proof (induction as arbitrary: p k)
  case Nil
  then show ?case by simp
next
  case (Cons a as)
  show ?case
  proof (cases k)
    case 0
    with Cons.prems show ?thesis by (cases as) auto
  next
    case (Suc k')
    with Cons.prems Cons.IH[of "nxt (h ! a)" k'] show ?thesis by auto
  qed
qed

lemma cycle_pos_less: "i < n \<Longrightarrow> cycle_pos n i t < n"
proof (cases "t < i")
  case True
  moreover assume "i < n"
  ultimately show ?thesis by (simp add: cycle_pos_def)
next
  case False
  assume "i < n"
  hence "(t - i) mod (n - i) < n - i" by simp
  hence "i + (t - i) mod (n - i) < n" by linarith
  with False show ?thesis by (simp add: cycle_pos_def)
qed

lemma cycle_pos_Suc:
  assumes "i < n"
  shows "cycle_pos n i (Suc t) = (if Suc (cycle_pos n i t) < n then Suc (cycle_pos n i t) else i)"
proof (cases "Suc t < i")
  case True
  with assms show ?thesis by (simp add: cycle_pos_def)
next
  case False
  show ?thesis
  proof (cases "t < i")
    case True
    with False have "Suc t = i" by simp
    with assms show ?thesis by (auto simp: cycle_pos_def)
  next
    case ge: False
    hence suc: "Suc t - i = Suc (t - i)" by simp
    have m: "(t - i) mod (n - i) < n - i" using assms by simp
    have pos: "cycle_pos n i t = i + (t - i) mod (n - i)"
      "cycle_pos n i (Suc t) = i + Suc (t - i) mod (n - i)"
      using ge suc by (simp_all add: cycle_pos_def)
    show ?thesis
    proof (cases "Suc ((t - i) mod (n - i)) = n - i")
      case True
      hence "Suc (t - i) mod (n - i) = 0" by (simp add: mod_Suc)
      moreover from True have "\<not> Suc (i + (t - i) mod (n - i)) < n" by linarith
      ultimately show ?thesis using pos by simp
    next
      case False
      hence "Suc (t - i) mod (n - i) = Suc ((t - i) mod (n - i))" by (simp add: mod_Suc)
      moreover from False m have "Suc (i + (t - i) mod (n - i)) < n" by linarith
      ultimately show ?thesis using pos by simp
    qed
  qed
qed

lemma lasso_next:
  assumes "lasso h head as i"
  shows "get_next h (Some (as ! cycle_pos (length as) i t))
       = Inr (Some (as ! cycle_pos (length as) i (Suc t)))"
proof -
  let ?n = "length as"
  from assms have i: "i < ?n" and p: "path h head as (Some (as ! i))"
    by (simp_all add: lasso_def)
  have lt: "cycle_pos ?n i t < ?n" using i by (rule cycle_pos_less)
  from path_nth[OF p lt] cycle_pos_Suc[OF i, of t] show ?thesis by simp
qed

lemma lasso_same_node:
  assumes "lasso h head as i"
  shows "as ! cycle_pos (length as) i s = as ! cycle_pos (length as) i t
     \<longleftrightarrow> cycle_pos (length as) i s = cycle_pos (length as) i t"
  using assms by (simp add: lasso_def nth_eq_iff_index_eq cycle_pos_less)

lemma lasso_head:
  assumes "lasso h head as i"
  shows "head = Some (as ! cycle_pos (length as) i 0)"
proof -
  from assms have "as \<noteq> []" "path h head as (Some (as ! i))" by (auto simp: lasso_def)
  hence "head = Some (as ! 0)" by (cases as) auto
  thus ?thesis by (simp add: cycle_pos_def)
qed
lemma meet_exists:
  assumes "i < n"
  shows "meet n i ((n - i) * Suc i)"
proof -
  let ?L = "n - i" and ?j = "(n - i) * Suc i"
  from assms have L: "0 < ?L" by simp
  hence "Suc i \<le> ?j" by (cases "n - i") simp_all
  hence ge: "i < ?j" by simp
  hence "2 * ?j - i = (?j - i) + ?L * Suc i" by simp
  hence "(2 * ?j - i) mod ?L = (?j - i) mod ?L" by (metis mod_mult_self2)
  with ge L show ?thesis by (simp add: meet_def cycle_pos_def)
qed

lemma meet_facts:
  assumes "i < n" "meet n i j"
  shows "i \<le> j" and "j mod (n - i) = 0"
proof -
  from assms(2) have pos: "0 < j" and eq: "cycle_pos n i (2 * j) = cycle_pos n i j"
    by (simp_all add: meet_def)
  show ge: "i \<le> j"
  proof (rule ccontr)
    assume "\<not> i \<le> j"
    hence "j < i" by simp
    with eq pos show False by (auto simp: cycle_pos_def split: if_splits)
  qed
  with eq have "(2 * j - i) mod (n - i) = (j - i) mod (n - i)"
    by (simp add: cycle_pos_def)
  moreover have "j - i \<le> 2 * j - i" by simp
  ultimately have "(n - i) dvd (2 * j - i) - (j - i)"
    by (simp add: mod_eq_dvd_iff_nat)
  moreover have "(2 * j - i) - (j - i) = j" using ge by simp
  ultimately show "j mod (n - i) = 0" by simp
qed

lemma detectCycle2_body_lasso:
  assumes "lasso h head as i" and "meet (length as) i J"
    and least: "\<And>j. meet (length as) i j \<Longrightarrow> J \<le> j"
  shows "j < J \<Longrightarrow>
    while_loop detectCycle2_body
      (h, Some (as ! cycle_pos (length as) i (2 * j)), Some (as ! cycle_pos (length as) i j), False)
    = return (h, Some (as ! cycle_pos (length as) i (2 * J)),
                 Some (as ! cycle_pos (length as) i J), True)"
proof (induction "J - j" arbitrary: j rule: less_induct)
  case less
  let ?at = "\<lambda>t. Some (as ! cycle_pos (length as) i t)"
  have reads: "get_next h (?at (2 * j)) = Inr (?at (Suc (2 * j)))"
    "get_next h (?at (Suc (2 * j))) = Inr (?at (2 * Suc j))"
    "get_next h (?at j) = Inr (?at (Suc j))"
    using lasso_next[OF assms(1)] by simp_all
  show ?case
  proof (cases "Suc j = J")
    case True
    with assms(2) have "cycle_pos (length as) i (2 * Suc j) = cycle_pos (length as) i (Suc j)"
      by (simp add: meet_def)
    with reads have "detectCycle2_body (h, ?at (2 * j), ?at j, False)
        = leave (h, ?at (2 * Suc j), ?at (Suc j), True)"
      by (simp add: detectCycle2_body_def)
    hence "while_loop detectCycle2_body (h, ?at (2 * j), ?at j, False)
        = return (h, ?at (2 * Suc j), ?at (Suc j), True)"
      by (rule while_loop_Leave)
    with True show ?thesis by simp
  next
    case False
    with less.prems have lt: "Suc j < J" by simp
    have "\<not> meet (length as) i (Suc j)"
    proof
      assume "meet (length as) i (Suc j)"
      hence "J \<le> Suc j" by (rule least)
      with lt show False by simp
    qed
    hence "cycle_pos (length as) i (2 * Suc j) \<noteq> cycle_pos (length as) i (Suc j)"
      by (simp add: meet_def)
    hence "?at (2 * Suc j) \<noteq> ?at (Suc j)"
      using lasso_same_node[OF assms(1)] by simp
    with reads have "detectCycle2_body (h, ?at (2 * j), ?at j, False)
        = again (h, ?at (2 * Suc j), ?at (Suc j), False)"
      by (simp add: detectCycle2_body_def)
    moreover have "while_loop detectCycle2_body (h, ?at (2 * Suc j), ?at (Suc j), False)
        = return (h, ?at (2 * J), ?at J, True)"
      using less.hyps[of "Suc j"] lt by simp
    ultimately show ?thesis by (rule while_loop_step)
  qed
qed

lemma detectCycle2_entry_lasso:
  assumes "lasso h head as i" and "i \<le> J" and "J mod (length as - i) = 0"
  shows "t \<le> i \<Longrightarrow>
    while_loop detectCycle2_entry
      (h, Some (as ! cycle_pos (length as) i t), Some (as ! cycle_pos (length as) i (J + t)))
    = return (h, Some (as ! i))"
proof (induction "i - t" arbitrary: t rule: less_induct)
  case less
  let ?n = "length as"
  let ?at = "\<lambda>t. Some (as ! cycle_pos ?n i t)"
  from assms(1) have i: "i < ?n" by (simp add: lasso_def)
  show ?case
  proof (cases "t = i")
    case True
    have "(J + i - i) mod (?n - i) = 0" using assms(3) by simp
    hence "cycle_pos ?n i (J + i) = i" by (simp add: cycle_pos_def)
    moreover have "cycle_pos ?n i i = i" by (simp add: cycle_pos_def)
    ultimately have "detectCycle2_entry (h, ?at t, ?at (J + t)) = leave (h, Some (as ! i))"
      using True by (simp add: detectCycle2_entry_def)
    thus ?thesis by (rule while_loop_Leave)
  next
    case False
    with less.prems have lt: "t < i" by simp
    hence "cycle_pos ?n i t = t" by (simp add: cycle_pos_def)
    moreover have "i \<le> cycle_pos ?n i (J + t)"
      using assms(2) by (simp add: cycle_pos_def)
    ultimately have "cycle_pos ?n i t \<noteq> cycle_pos ?n i (J + t)" using lt by simp
    hence "?at t \<noteq> ?at (J + t)" using lasso_same_node[OF assms(1)] by simp
    moreover have "get_next h (?at t) = Inr (?at (Suc t))"
      "get_next h (?at (J + t)) = Inr (?at (J + Suc t))"
      using lasso_next[OF assms(1)] by simp_all
    ultimately have "detectCycle2_entry (h, ?at t, ?at (J + t))
        = again (h, ?at (Suc t), ?at (J + Suc t))"
      by (simp add: detectCycle2_entry_def)
    moreover have "while_loop detectCycle2_entry (h, ?at (Suc t), ?at (J + Suc t))
        = return (h, Some (as ! i))"
      using less.hyps[of "Suc t"] lt by simp
    ultimately show ?thesis by (rule while_loop_step)
  qed
qed

lemma detectCycle2_lasso:
  assumes "lasso h head as i"
  shows "detectCycle2 h head = return (h, Some (as ! i))"
proof -
  let ?n = "length as"
  from assms have i: "i < ?n" by (simp add: lasso_def)
  define J where "J = (LEAST j. meet ?n i j)"
  have J: "meet ?n i J" unfolding J_def using meet_exists[OF i] by (rule LeastI)
  have least: "\<And>j. meet ?n i j \<Longrightarrow> J \<le> j" unfolding J_def by (rule Least_le)
  from J have "0 < J" by (simp add: meet_def)
  hence first: "while_loop detectCycle2_body (h, head, head, False)
      = return (h, Some (as ! cycle_pos ?n i (2 * J)), Some (as ! cycle_pos ?n i J), True)"
    using detectCycle2_body_lasso[OF assms J least, of 0] lasso_head[OF assms] by simp
  have "while_loop detectCycle2_entry (h, head, Some (as ! cycle_pos ?n i J))
      = return (h, Some (as ! i))"
    using detectCycle2_entry_lasso[OF assms meet_facts[OF i J], of 0] lasso_head[OF assms]
    by simp
  with first show ?thesis by (simp add: detectCycle2_def)
qed

text \<open>
  C7. On every acyclic chain \<^verbatim>\<open>detectCycleEntry\<close> (\<^verbatim>\<open>detectCycle2\<close>) returns
  \<^verbatim>\<open>None\<close>, whether the fast pointer runs off the end or the attempt to step
  it past the last node raises inside the \<^verbatim>\<open>try\<close>. On every chain whose last
  node points back to the node at index \<open>i\<close> it terminates and returns that
  node.
\<close>

theorem detectCycleEntry_correct:
  "(chain h head as \<longrightarrow> detectCycle2 h head = return (h, None))
 \<and> (lasso h head as i \<longrightarrow> detectCycle2 h head = return (h, Some (as ! i)))"
  using detectCycle2_acyclic[of h head as] detectCycle2_lasso[of h head as i] by blast

text \<open>
  Chains of four nodes: one that ends, one of even length and one of odd length
  without a cycle, and the ones whose last node points back to index 1, to
  the head and to itself.
\<close>

theorem detectCycleEntry_examples:
  "chain [\<lparr>val = 1, nxt = Some 1\<rparr>, \<lparr>val = 2, nxt = Some 2\<rparr>, \<lparr>val = 3, nxt = None\<rparr>]
     (Some 0) [0, 1, 2]
 \<and> detectCycle2 [\<lparr>val = 1, nxt = Some 1\<rparr>, \<lparr>val = 2, nxt = Some 2\<rparr>, \<lparr>val = 3, nxt = None\<rparr>]
     (Some 0)
   = return ([\<lparr>val = 1, nxt = Some 1\<rparr>, \<lparr>val = 2, nxt = Some 2\<rparr>, \<lparr>val = 3, nxt = None\<rparr>], None)
 \<and> lasso [\<lparr>val = 1, nxt = Some 1\<rparr>, \<lparr>val = 2, nxt = Some 2\<rparr>, \<lparr>val = 3, nxt = Some 3\<rparr>,
          \<lparr>val = 4, nxt = Some 1\<rparr>] (Some 0) [0, 1, 2, 3] 1
 \<and> detectCycle2 [\<lparr>val = 1, nxt = Some 1\<rparr>, \<lparr>val = 2, nxt = Some 2\<rparr>, \<lparr>val = 3, nxt = Some 3\<rparr>,
          \<lparr>val = 4, nxt = Some 1\<rparr>] (Some 0)
   = return ([\<lparr>val = 1, nxt = Some 1\<rparr>, \<lparr>val = 2, nxt = Some 2\<rparr>, \<lparr>val = 3, nxt = Some 3\<rparr>,
          \<lparr>val = 4, nxt = Some 1\<rparr>], Some 1)"
proof -
  let ?a = "[\<lparr>val = 1, nxt = Some 1\<rparr>, \<lparr>val = 2, nxt = Some 2\<rparr>, \<lparr>val = 3, nxt = None\<rparr>]"
  let ?c = "[\<lparr>val = 1, nxt = Some 1\<rparr>, \<lparr>val = 2, nxt = Some 2\<rparr>, \<lparr>val = 3, nxt = Some 3\<rparr>,
          \<lparr>val = 4, nxt = Some 1\<rparr>]"
  have a: "chain ?a (Some 0) [0, 1, 2]" by simp
  have c: "lasso ?c (Some 0) [0, 1, 2, 3] 1" by (simp add: lasso_def)
  from detectCycleEntry_correct[of ?a "Some 0" "[0, 1, 2]"] a
    detectCycleEntry_correct[of ?c "Some 0" "[0, 1, 2, 3]" 1] c
  show ?thesis by simp
qed

subsection \<open>Insertion sort\<close>

lemma insert_before_not_smaller_insort:
  "insert_before_not_smaller f a bs = insort_key f a bs"
  by (induction bs) (auto simp: insert_before_not_smaller_def)

lemma insert_before_not_smaller_cong:
  assumes "\<forall>x \<in> set (a # bs). f x = g x"
  shows "insert_before_not_smaller f a bs = insert_before_not_smaller g a bs"
proof -
  have "takeWhile (\<lambda>b. f b < f a) bs = takeWhile (\<lambda>b. g b < g a) bs"
    using assms by (intro takeWhile_cong) auto
  moreover have "dropWhile (\<lambda>b. f b < f a) bs = dropWhile (\<lambda>b. g b < g a) bs"
    using assms by (intro dropWhile_cong) auto
  ultimately show ?thesis by (simp add: insert_before_not_smaller_def)
qed

lemma set_insert_before_not_smaller [simp]:
  "set (insert_before_not_smaller f a bs) = insert a (set bs)"
  by (simp add: insert_before_not_smaller_insort set_insort_key)

lemma foldl_insert_facts:
  "sorted (map f bs) \<Longrightarrow> distinct (as @ bs) \<Longrightarrow>
   sorted (map f (foldl (\<lambda>acc a. insert_before_not_smaller f a acc) bs as))
   \<and> distinct (foldl (\<lambda>acc a. insert_before_not_smaller f a acc) bs as)
   \<and> set (foldl (\<lambda>acc a. insert_before_not_smaller f a acc) bs as) = set as \<union> set bs"
proof (induction as arbitrary: bs)
  case Nil
  then show ?case by simp
next
  case (Cons a as)
  have "sorted (map f (insert_before_not_smaller f a bs))"
    using Cons.prems(1) by (simp add: insert_before_not_smaller_insort sorted_insort_key)
  moreover have "distinct (as @ insert_before_not_smaller f a bs)"
    using Cons.prems(2)
    by (auto simp: insert_before_not_smaller_insort distinct_insort set_insort_key)
  ultimately show ?case using Cons.IH[of "insert_before_not_smaller f a bs"] by simp
qed

lemma insertion_order_facts:
  assumes "distinct as"
  shows "sorted (map f (insertion_order f as))" "distinct (insertion_order f as)"
    "set (insertion_order f as) = set as"
  using foldl_insert_facts[of f "[]" as] assms by (simp_all add: insertion_order_def)

lemma insertion_order_sort_key: "insertion_order f as = sort_key f (rev as)"
proof -
  have "(\<lambda>acc a. insert_before_not_smaller f a acc) = (\<lambda>acc a. insort_key f a acc)"
    by (simp add: insert_before_not_smaller_insort)
  thus ?thesis by (simp add: insertion_order_def sort_key_def foldl_conv_foldr)
qed

lemma insertNode_body_loop:
  assumes "a < length h"
  shows "chain h n bs \<Longrightarrow>
    while_loop (insertNode_body (Some a)) (h, n, prev)
      = return (h, refat (dropWhile (\<lambda>b. val (h ! b) < val (h ! a)) bs) 0,
                if takeWhile (\<lambda>b. val (h ! b) < val (h ! a)) bs = [] then prev
                else Some (last (takeWhile (\<lambda>b. val (h ! b) < val (h ! a)) bs)))"
proof (induction bs arbitrary: n prev)
  case Nil
  hence "insertNode_body (Some a) (h, n, prev) = leave (h, n, prev)"
    by (simp add: insertNode_body_def)
  hence "while_loop (insertNode_body (Some a)) (h, n, prev) = return (h, n, prev)"
    by (rule while_loop_Leave)
  with Nil show ?case by (simp add: refat_def)
next
  case (Cons b bs)
  hence b: "n = Some b" "b < length h" "chain h (nxt (h ! b)) bs" by simp_all
  show ?case
  proof (cases "val (h ! b) < val (h ! a)")
    case True
    with b assms have "insertNode_body (Some a) (h, n, prev) = again (h, nxt (h ! b), Some b)"
      by (simp add: insertNode_body_def)
    from this Cons.IH[OF b(3), of "Some b"]
    have "while_loop (insertNode_body (Some a)) (h, n, prev)
      = return (h, refat (dropWhile (\<lambda>b. val (h ! b) < val (h ! a)) bs) 0,
                if takeWhile (\<lambda>b. val (h ! b) < val (h ! a)) bs = [] then Some b
                else Some (last (takeWhile (\<lambda>b. val (h ! b) < val (h ! a)) bs)))"
      by (rule while_loop_step)
    with True show ?thesis by simp
  next
    case False
    with b assms have "insertNode_body (Some a) (h, n, prev) = leave (h, n, prev)"
      by (simp add: insertNode_body_def)
    hence "while_loop (insertNode_body (Some a)) (h, n, prev) = return (h, n, prev)"
      by (rule while_loop_Leave)
    with False b show ?thesis by (simp add: refat_def)
  qed
qed

lemma insertNode_chain:
  assumes ch: "chain h head bs" and a: "a < length h" "a \<notin> set bs"
    and f: "\<forall>x \<in> set (a # bs). f x = val (h ! x)"
  shows "\<exists>h' r. insertNode h head (Some a) = return (h', r)
           \<and> chain h' r (insert_before_not_smaller f a bs)
           \<and> map val h' = map val h
           \<and> (\<forall>x. x \<notin> set (a # bs) \<longrightarrow> h' ! x = h ! x)"
proof -
  define tw where "tw = takeWhile (\<lambda>b. val (h ! b) < val (h ! a)) bs"
  define dw where "dw = dropWhile (\<lambda>b. val (h ! b) < val (h ! a)) bs"
  have bs: "bs = tw @ dw" by (simp add: tw_def dw_def)
  have ins: "insert_before_not_smaller f a bs = tw @ a # dw"
    using insert_before_not_smaller_cong[of a bs f "\<lambda>x. val (h ! x)"] f
    by (simp add: insert_before_not_smaller_def tw_def dw_def)
  show ?thesis
  proof (cases "head = None")
    case True
    with ch have "bs = []" by simp
    hence "insert_before_not_smaller f a bs = [a]"
      by (simp add: insert_before_not_smaller_def)
    with True a \<open>bs = []\<close> show ?thesis by (simp add: insertNode_def)
  next
    case False
    have scan: "while_loop (insertNode_body (Some a)) (h, head, None)
        = return (h, refat dw 0, if tw = [] then None else Some (last tw))"
      unfolding tw_def dw_def using a(1) ch by (rule insertNode_body_loop)
    show ?thesis
    proof (cases "tw = []")
      case True
      let ?h2 = "h[a := (h ! a)\<lparr>nxt := head\<rparr>]"
      from True bs ins have eq: "insert_before_not_smaller f a bs = a # bs" by simp
      have run: "insertNode h head (Some a) = return (?h2, Some a)"
        using False scan True a by (simp add: insertNode_def)
      have "chain ?h2 (Some a) (a # bs)" using a ch by simp
      hence "chain ?h2 (Some a) (insert_before_not_smaller f a bs)" by (simp only: eq)
      moreover have "map val ?h2 = map val h" by simp
      moreover have "\<forall>x. x \<notin> set (a # bs) \<longrightarrow> ?h2 ! x = h ! x" by simp
      ultimately show ?thesis using run by blast
    next
      case nonempty: False
      define p where "p = last tw"
      define tw' where "tw' = butlast tw"
      have tw_eq: "tw = tw' @ [p]" using nonempty by (simp add: p_def tw'_def)
      with bs have bs_eq: "bs = tw' @ p # dw" by simp
      from ch have "distinct bs" by (rule chain_distinct)
      with bs_eq have p_fresh: "p \<notin> set tw'" "p \<notin> set dw" by auto
      from bs_eq a(2) have a_fresh: "a \<notin> set tw'" "a \<noteq> p" "a \<notin> set dw" by auto
      from ch bs_eq have "chain h head (tw' @ p # dw)" by simp
      then obtain r where "path h head tw' r" "chain h r (p # dw)"
        unfolding chain_append by blast
      hence parts: "path h head tw' (Some p)" "p < length h" "chain h (nxt (h ! p)) dw"
        by simp_all
      have n': "refat dw 0 = nxt (h ! p)" using parts(3) by (rule refat_0)
      let ?h2 = "h[a := (h ! a)\<lparr>nxt := nxt (h ! p)\<rparr>]"
      let ?h3 = "?h2[p := (?h2 ! p)\<lparr>nxt := Some a\<rparr>]"
      have run: "insertNode h head (Some a) = return (?h3, head)"
        using False scan nonempty n' a parts(2) by (simp add: insertNode_def p_def)
      have "path ?h3 head tw' (Some p)" using parts(1) p_fresh a_fresh by simp
      moreover have "nxt (?h3 ! p) = Some a" "nxt (?h3 ! a) = nxt (h ! p)"
        using a parts(2) a_fresh by simp_all
      moreover have "chain ?h3 (nxt (h ! p)) dw" using parts(3) p_fresh a_fresh by simp
      ultimately have "chain ?h3 head (tw' @ p # a # dw)"
        using a parts(2) by (simp add: chain_append)
      hence "chain ?h3 head (insert_before_not_smaller f a bs)" using ins tw_eq by simp
      moreover have "map val ?h3 = map val h" by simp
      moreover have "\<forall>x. x \<notin> set (a # bs) \<longrightarrow> ?h3 ! x = h ! x"
        using bs_eq by auto
      ultimately show ?thesis using run by blast
    qed
  qed
qed


lemma insertionSort_loop:
  "chain h head as \<Longrightarrow> chain h newList bs \<Longrightarrow> set as \<inter> set bs = {} \<Longrightarrow>
   \<forall>x \<in> set as \<union> set bs. f x = val (h ! x) \<Longrightarrow>
   \<exists>h' r. while_loop insertionSort_body (h, head, newList) = return (h', r)
     \<and> chain h' r (foldl (\<lambda>acc a. insert_before_not_smaller f a acc) bs as)
     \<and> map val h' = map val h"
proof (induction as arbitrary: h head newList bs)
  case Nil
  hence "insertionSort_body (h, head, newList) = leave (h, newList)"
    by (simp add: insertionSort_body_def)
  hence "while_loop insertionSort_body (h, head, newList) = return (h, newList)"
    by (rule while_loop_Leave)
  with Nil show ?case by simp
next
  case (Cons a as)
  from Cons.prems(1) have a: "head = Some a" "a < length h" and rest: "chain h (nxt (h ! a)) as"
    by simp_all
  from Cons.prems(1) have "distinct (a # as)" by (rule chain_distinct)
  hence a_as: "a \<notin> set as" by simp
  from Cons.prems(3) have a_bs: "a \<notin> set bs" and disj: "set as \<inter> set bs = {}" by auto
  from Cons.prems(4) have "\<forall>x \<in> set (a # bs). f x = val (h ! x)" by simp
  from insertNode_chain[OF Cons.prems(2) a(2) a_bs this] obtain h1 r1 where
    ins: "insertNode h newList (Some a) = return (h1, r1)"
    and ch1: "chain h1 r1 (insert_before_not_smaller f a bs)"
    and v1: "map val h1 = map val h"
    and fr1: "\<forall>x. x \<notin> set (a # bs) \<longrightarrow> h1 ! x = h ! x"
    by blast
  have step: "insertionSort_body (h, head, newList) = again (h1, nxt (h ! a), r1)"
    using a ins by (simp add: insertionSort_body_def)
  have len: "length h1 = length h" using v1 by (rule map_val_length)
  have "\<forall>x \<in> set as. nxt (h1 ! x) = nxt (h ! x)" using fr1 a_as disj by auto
  with len rest have rest1: "chain h1 (nxt (h ! a)) as" by (simp add: chain_frame[of h1 h])
  have disj1: "set as \<inter> set (insert_before_not_smaller f a bs) = {}"
    using a_as disj by simp
  have "\<forall>x \<in> set as \<union> set (insert_before_not_smaller f a bs). f x = val (h1 ! x)"
  proof
    fix x assume "x \<in> set as \<union> set (insert_before_not_smaller f a bs)"
    hence x: "x \<in> set (a # as) \<union> set bs" by auto
    hence "x < length h"
      using Cons.prems(1,2) by (auto dest: chain_in_heap)
    with v1 have "val (h1 ! x) = val (h ! x)" by (rule map_val_nth)
    with x Cons.prems(4) show "f x = val (h1 ! x)" by auto
  qed
  from Cons.IH[OF rest1 ch1 disj1 this] obtain h' r where
    run: "while_loop insertionSort_body (h1, nxt (h ! a), r1) = return (h', r)"
    and ch: "chain h' r (foldl (\<lambda>acc a. insert_before_not_smaller f a acc)
                           (insert_before_not_smaller f a bs) as)"
    and v: "map val h' = map val h1"
    by blast
  from step run have "while_loop insertionSort_body (h, head, newList) = return (h', r)"
    by (rule while_loop_step)
  with ch v v1 show ?case by auto
qed

text \<open>
  C1, as the code has it. \<^verbatim>\<open>insertionSort\<close> takes the nodes of an acyclic
  chain one by one from the front and puts each into the output chain in front
  of the first node whose value is not smaller than its own; so a node goes in
  front of the nodes of equal value that are already there. The output chain is
  sorted in non-decreasing order and consists of the same nodes, with the same
  values.
\<close>

theorem insertionSort_sorted_ties_in_front:
  assumes "chain h head as"
  shows "\<exists>h' r. insertionSort h head = return (h', r)
           \<and> chain h' r (insertion_order (key h) as)
           \<and> sorted (vals h' (insertion_order (key h) as))
           \<and> distinct (insertion_order (key h) as)
           \<and> set (insertion_order (key h) as) = set as
           \<and> map val h' = map val h"
proof -
  from assms have dist: "distinct as" by (rule chain_distinct)
  have "chain h None []" by simp
  from insertionSort_loop[OF assms this, of "key h"] obtain h' r where
    run: "insertionSort h head = return (h', r)"
    and ch: "chain h' r (insertion_order (key h) as)"
    and v: "map val h' = map val h"
    by (auto simp: insertionSort_def insertion_order_def key_def)
  have "\<forall>a \<in> set (insertion_order (key h) as). a < length h"
    using assms insertion_order_facts(3)[OF dist, of "key h"] by (auto dest: chain_in_heap)
  with v have "vals h' (insertion_order (key h) as) = vals h (insertion_order (key h) as)"
    by (rule vals_same)
  also have "\<dots> = map (key h) (insertion_order (key h) as)"
    by (simp add: vals_def key_def)
  finally have "sorted (vals h' (insertion_order (key h) as))"
    using insertion_order_facts(1)[OF dist, of "key h"] by simp
  with run ch v insertion_order_facts(2,3)[OF dist, of "key h"] show ?thesis by blast
qed

text \<open>
  The list \<^verbatim>\<open>[5, 3, 5]\<close>: the sorted chain is node 1, node 2, node 0; the
  second 5 (node 2) is in front of the first 5 (node 0).
\<close>

theorem insertionSort_sorted_ties_in_front_example:
  "chain [\<lparr>val = 5, nxt = Some 1\<rparr>, \<lparr>val = 3, nxt = Some 2\<rparr>, \<lparr>val = 5, nxt = None\<rparr>]
     (Some 0) [0, 1, 2]
 \<and> (\<exists>h' r. insertionSort [\<lparr>val = 5, nxt = Some 1\<rparr>, \<lparr>val = 3, nxt = Some 2\<rparr>,
                           \<lparr>val = 5, nxt = None\<rparr>] (Some 0) = return (h', r)
       \<and> chain h' r [1, 2, 0] \<and> vals h' [1, 2, 0] = [3, 5, 5])"
proof -
  let ?h = "[\<lparr>val = 5, nxt = Some 1\<rparr>, \<lparr>val = 3, nxt = Some 2\<rparr>, \<lparr>val = 5, nxt = None\<rparr>]"
  have c: "chain ?h (Some 0) [0, 1, 2]" by simp
  have o: "insertion_order (key ?h) [0, 1, 2] = [1, 2, 0]"
    by (simp add: insertion_order_def insert_before_not_smaller_def key_def)
  from insertionSort_sorted_ties_in_front[OF c] obtain h' r where
    run: "insertionSort ?h (Some 0) = return (h', r)" and ch: "chain h' r [1, 2, 0]"
    and v: "map val h' = map val ?h"
    unfolding o by blast
  from v have "vals h' [1, 2, 0] = vals ?h [1, 2, 0]" by (intro vals_same) simp_all
  hence "vals h' [1, 2, 0] = [3, 5, 5]" by (simp add: vals_def)
  with c run ch show ?thesis by blast
qed

text \<open>
  C1 as stated fails on the list \<^verbatim>\<open>[5, 5]\<close>. Were a node put behind the nodes
  of equal value, the output chain would be node 0, node 1; \<^verbatim>\<open>insertionSort\<close>
  returns the chain node 1, node 0.
\<close>

theorem insertionSort_ties_counterexample:
  "chain [\<lparr>val = 5, nxt = Some 1\<rparr>, \<lparr>val = 5, nxt = None\<rparr>] (Some 0) [0, 1]
 \<and> stable_insertion_order (key [\<lparr>val = 5, nxt = Some 1\<rparr>, \<lparr>val = 5, nxt = None\<rparr>]) [0, 1] = [0, 1]
 \<and> insertionSort [\<lparr>val = 5, nxt = Some 1\<rparr>, \<lparr>val = 5, nxt = None\<rparr>] (Some 0)
     = return ([\<lparr>val = 5, nxt = None\<rparr>, \<lparr>val = 5, nxt = Some 0\<rparr>], Some 1)
 \<and> chain [\<lparr>val = 5, nxt = None\<rparr>, \<lparr>val = 5, nxt = Some 0\<rparr>] (Some 1) [1, 0]
 \<and> \<not> chain [\<lparr>val = 5, nxt = None\<rparr>, \<lparr>val = 5, nxt = Some 0\<rparr>] (Some 1) [0, 1]"
proof -
  have "insertionSort [\<lparr>val = 5, nxt = Some 1\<rparr>, \<lparr>val = 5, nxt = None\<rparr>] (Some 0)
     = return ([\<lparr>val = 5, nxt = None\<rparr>, \<lparr>val = 5, nxt = Some 0\<rparr>], Some 1)"
    by code_simp
  moreover have "stable_insertion_order (key [\<lparr>val = 5, nxt = Some 1\<rparr>, \<lparr>val = 5, nxt = None\<rparr>])
      [0, 1] = [0, 1]"
    by (simp add: stable_insertion_order_def insert_before_greater_def key_def)
  ultimately show ?thesis by simp
qed

subsection \<open>Removing the node at a given position\<close>

lemma refat_Some: "k < length as \<Longrightarrow> refat as k = Some (as ! k)"
  by (simp add: refat_def)

lemma chain_remove_at:
  assumes ch: "chain h head as" and k: "0 < k" "k < length as"
  shows "chain (h[as ! (k - 1) := (h ! (as ! (k - 1)))\<lparr>nxt := nxt (h ! (as ! k))\<rparr>]) head
           (take k as @ drop (Suc k) as)"
proof -
  define p where "p = as ! (k - 1)"
  define q where "q = as ! k"
  define pre where "pre = take (k - 1) as"
  define post where "post = drop (Suc k) as"
  from k have "as = take (k - 1) as @ as ! (k - 1) # drop (Suc (k - 1)) as"
    by (intro id_take_nth_drop) simp
  moreover from k have "drop (Suc (k - 1)) as = as ! k # drop (Suc k) as"
    by (simp add: Cons_nth_drop_Suc)
  ultimately have as_eq: "as = pre @ p # q # post"
    by (simp add: p_def q_def pre_def post_def)
  from k have "take k as = take (k - 1) as @ [as ! (k - 1)]"
    using take_Suc_conv_app_nth[of "k - 1" as] by simp
  hence res_eq: "take k as @ drop (Suc k) as = pre @ p # post"
    by (simp add: p_def pre_def post_def)
  from ch have "distinct as" by (rule chain_distinct)
  with as_eq have fresh: "p \<notin> set pre" "p \<notin> set post" "p \<noteq> q" by auto
  from ch as_eq have "chain h head (pre @ p # q # post)" by simp
  then obtain r where "path h head pre r" "chain h r (p # q # post)"
    unfolding chain_append by blast
  hence parts: "path h head pre (Some p)" "p < length h" "q < length h"
    "chain h (nxt (h ! q)) post"
    by simp_all
  let ?h' = "h[p := (h ! p)\<lparr>nxt := nxt (h ! q)\<rparr>]"
  have "path ?h' head pre (Some p)" using parts(1) fresh by simp
  moreover have "nxt (?h' ! p) = nxt (h ! q)" using parts(2) by simp
  moreover have "chain ?h' (nxt (h ! q)) post" using parts(4) fresh by simp
  ultimately have "chain ?h' head (pre @ p # post)" using parts(2) by (simp add: chain_append)
  thus ?thesis unfolding res_eq by (simp add: p_def q_def)
qed

text \<open>
  The code that follows the search loop in both removal functions, with
  \<open>node\<close> the node to remove and \<open>prev\<close> the node before it.
\<close>

lemma unlink_node:
  assumes ch: "chain h head as" and k: "k < length as"
    and code: "result =
       (if prev = None then ebind (get_next h node) (\<lambda>node'. return (h, node'))
        else if node = None then ebind (set_next h prev None) (\<lambda>h2. return (h2, head))
        else ebind (get_next h node) (\<lambda>nn. ebind (set_next h prev nn) (\<lambda>h2. return (h2, head))))"
    and node: "node = Some (as ! k)"
    and prev: "prev = (if k = 0 then None else Some (as ! (k - 1)))"
  shows "\<exists>h' r. result = return (h', r)
           \<and> chain h' r (take k as @ drop (Suc k) as)
           \<and> h' ! (as ! k) = h ! (as ! k)
           \<and> map val h' = map val h"
proof (cases "k = 0")
  case True
  with k have "chain h (refat as (Suc 0)) (drop (Suc 0) as)" using ch by (intro chain_drop)
  moreover have "get_next h node = Inr (refat as (Suc 0))"
    using get_next_refat[OF ch k] True node k by (simp add: refat_def)
  ultimately show ?thesis using True prev code by simp
next
  case False
  hence k0: "0 < k" by simp
  let ?p = "as ! (k - 1)" and ?q = "as ! k"
  let ?h' = "h[?p := (h ! ?p)\<lparr>nxt := nxt (h ! ?q)\<rparr>]"
  from ch k have valid: "?q < length h" "?p < length h" by (simp_all add: chain_in_heap)
  from ch have "distinct as" by (rule chain_distinct)
  with k k0 have neq: "?p \<noteq> ?q" by (simp add: nth_eq_iff_index_eq)
  have "result = return (?h', head)" using False prev node code valid by simp
  moreover have "chain ?h' head (take k as @ drop (Suc k) as)"
    using ch k0 k by (rule chain_remove_at)
  moreover have "?h' ! ?q = h ! ?q" using neq by simp
  moreover have "map val ?h' = map val h" by simp
  ultimately show ?thesis by blast
qed

lemma removeNthFromEnd2_loop:
  assumes ch: "chain h head as"
  shows "j \<le> length as \<Longrightarrow>
    while_loop (removeNthFromEnd2_body (int n))
      (h, refat as j, if n < j then refat as (j - n - 1) else None, refat as (j - n), int j + 1)
    = return (h, if n < length as then refat as (length as - n - 1) else None,
                 refat as (length as - n))"
proof (induction "length as - j" arbitrary: j rule: less_induct)
  case less
  show ?case
  proof (cases "j = length as")
    case True
    hence "refat as j = None" by (simp add: refat_def)
    hence "removeNthFromEnd2_body (int n)
        (h, refat as j, if n < j then refat as (j - n - 1) else None, refat as (j - n), int j + 1)
      = leave (h, if n < j then refat as (j - n - 1) else None, refat as (j - n))"
      by (simp add: removeNthFromEnd2_body_def)
    hence "while_loop (removeNthFromEnd2_body (int n))
        (h, refat as j, if n < j then refat as (j - n - 1) else None, refat as (j - n), int j + 1)
      = return (h, if n < j then refat as (j - n - 1) else None, refat as (j - n))"
      by (rule while_loop_Leave)
    with True show ?thesis by simp
  next
    case False
    with less.prems have lt: "j < length as" by simp
    hence node: "refat as j = Some (as ! j)" "get_next h (refat as j) = Inr (refat as (Suc j))"
      using get_next_refat[OF ch, of j] by (simp_all add: refat_def)
    have IH: "while_loop (removeNthFromEnd2_body (int n))
      (h, refat as (Suc j), if n < Suc j then refat as (Suc j - n - 1) else None,
       refat as (Suc j - n), int (Suc j) + 1)
      = return (h, if n < length as then refat as (length as - n - 1) else None,
                 refat as (length as - n))"
      using less.hyps[of "Suc j"] lt by simp
    have "removeNthFromEnd2_body (int n)
        (h, refat as j, if n < j then refat as (j - n - 1) else None, refat as (j - n), int j + 1)
      = again (h, refat as (Suc j), if n < Suc j then refat as (Suc j - n - 1) else None,
               refat as (Suc j - n), int (Suc j) + 1)"
    proof (cases "n \<le> j")
      case True
      hence "get_next h (refat as (j - n)) = Inr (refat as (Suc (j - n)))"
        using get_next_refat[OF ch, of "j - n"] lt by simp
      moreover from True have "Suc j - n = Suc (j - n)" "Suc j - n - 1 = j - n" by simp_all
      ultimately show ?thesis using True node
        by (simp add: removeNthFromEnd2_body_def add.commute)
    next
      case False
      thus ?thesis using node by (simp add: removeNthFromEnd2_body_def add.commute)
    qed
    from this IH show ?thesis by (rule while_loop_step)
  qed
qed

lemma removeNthFromEnd2_chain:
  assumes ch: "chain h head as" and n: "0 < n" "n \<le> length as"
  shows "\<exists>h' r. removeNthFromEnd2 h head (int n) = return (h', r)
           \<and> chain h' r (take (length as - n) as @ drop (Suc (length as - n)) as)
           \<and> h' ! (as ! (length as - n)) = h ! (as ! (length as - n))
           \<and> map val h' = map val h"
proof -
  let ?k = "length as - n"
  from n have k: "?k < length as" by simp
  have "while_loop (removeNthFromEnd2_body (int n)) (h, head, None, head, 1)
      = return (h, if n < length as then refat as (length as - n - 1) else None, refat as ?k)"
    using removeNthFromEnd2_loop[OF ch, of 0 n] refat_0[OF ch] by simp
  moreover have "(if n < length as then refat as (length as - n - 1) else None)
      = (if ?k = 0 then None else Some (as ! (?k - 1)))"
    using n by (auto simp: refat_def)
  moreover have "refat as ?k = Some (as ! ?k)" using k by (simp add: refat_def)
  ultimately have "removeNthFromEnd2 h head (int n) =
      (if (if ?k = 0 then None else Some (as ! (?k - 1))) = None
         then ebind (get_next h (Some (as ! ?k))) (\<lambda>node'. return (h, node'))
       else if Some (as ! ?k) = None
         then ebind (set_next h (if ?k = 0 then None else Some (as ! (?k - 1))) None)
                (\<lambda>h2. return (h2, head))
       else ebind (get_next h (Some (as ! ?k)))
              (\<lambda>nn. ebind (set_next h (if ?k = 0 then None else Some (as ! (?k - 1))) nn)
                 (\<lambda>h2. return (h2, head))))"
    by (simp add: removeNthFromEnd2_def)
  from unlink_node[OF ch k this refl refl] show ?thesis .
qed

lemma removeNthFromBegining_loop:
  assumes ch: "chain h head as" and m: "0 < m" "m \<le> length as"
  shows "j < m \<Longrightarrow>
    while_loop (removeNthFromBegining_body (int m))
      (h, refat as j, if j = 0 then None else refat as (j - 1), int j + 1)
    = return (h, refat as (m - 1), if m - 1 = 0 then None else refat as (m - 1 - 1))"
proof (induction "m - j" arbitrary: j rule: less_induct)
  case less
  show ?case
  proof (cases "Suc j = m")
    case True
    hence "removeNthFromBegining_body (int m)
        (h, refat as j, if j = 0 then None else refat as (j - 1), int j + 1)
      = leave (h, refat as j, if j = 0 then None else refat as (j - 1))"
      by (auto simp: removeNthFromBegining_body_def)
    hence "while_loop (removeNthFromBegining_body (int m))
        (h, refat as j, if j = 0 then None else refat as (j - 1), int j + 1)
      = return (h, refat as j, if j = 0 then None else refat as (j - 1))"
      by (rule while_loop_Leave)
    with True show ?thesis by auto
  next
    case False
    with less.prems have lt: "Suc j < m" by simp
    with m have "j < length as" by simp
    hence "get_next h (refat as j) = Inr (refat as (Suc j))"
      using get_next_refat[OF ch] by simp
    moreover from lt have "int j + 1 \<noteq> int m" by simp
    ultimately have "removeNthFromBegining_body (int m)
        (h, refat as j, if j = 0 then None else refat as (j - 1), int j + 1)
      = again (h, refat as (Suc j), if Suc j = 0 then None else refat as (Suc j - 1),
               int (Suc j) + 1)"
      by (simp add: removeNthFromBegining_body_def add.commute)
    moreover have "while_loop (removeNthFromBegining_body (int m))
        (h, refat as (Suc j), if Suc j = 0 then None else refat as (Suc j - 1), int (Suc j) + 1)
      = return (h, refat as (m - 1), if m - 1 = 0 then None else refat as (m - 1 - 1))"
      using lt by (intro less.hyps) simp_all
    ultimately show ?thesis by (rule while_loop_step)
  qed
qed

lemma removeNthFromBegining_chain:
  assumes ch: "chain h head as" and m: "0 < m" "m \<le> length as"
  shows "\<exists>h' r. removeNthFromBegining h head (int m) = return (h', r)
           \<and> chain h' r (take (m - 1) as @ drop (Suc (m - 1)) as)
           \<and> h' ! (as ! (m - 1)) = h ! (as ! (m - 1))
           \<and> map val h' = map val h"
proof -
  let ?k = "m - 1"
  from m have k: "?k < length as" by simp
  have "while_loop (removeNthFromBegining_body (int m)) (h, head, None, 1)
      = return (h, refat as ?k, if ?k = 0 then None else refat as (?k - 1))"
    using removeNthFromBegining_loop[OF ch m, of 0] m refat_0[OF ch] by simp
  moreover have "(if ?k = 0 then None else refat as (?k - 1))
      = (if ?k = 0 then None else Some (as ! (?k - 1)))"
    using k by (auto simp: refat_def)
  moreover have "refat as ?k = Some (as ! ?k)" using k by (simp add: refat_def)
  ultimately have "removeNthFromBegining h head (int m) =
      (if (if ?k = 0 then None else Some (as ! (?k - 1))) = None
         then ebind (get_next h (Some (as ! ?k))) (\<lambda>node'. return (h, node'))
       else if Some (as ! ?k) = None
         then ebind (set_next h (if ?k = 0 then None else Some (as ! (?k - 1))) None)
                (\<lambda>h2. return (h2, head))
       else ebind (get_next h (Some (as ! ?k)))
              (\<lambda>nn. ebind (set_next h (if ?k = 0 then None else Some (as ! (?k - 1))) nn)
                 (\<lambda>h2. return (h2, head))))"
    by (simp add: removeNthFromBegining_def)
  from unlink_node[OF ch k this refl refl] show ?thesis .
qed

lemma removeNthFronEnd_chain:
  assumes ch: "chain h head as" and n: "0 < n" "n \<le> length as"
  shows "\<exists>h' r. removeNthFronEnd h head (int n) = return (h', r)
           \<and> chain h' r (take (length as - n) as @ drop (Suc (length as - n)) as)
           \<and> h' ! (as ! (length as - n)) = h ! (as ! (length as - n))
           \<and> map val h' = map val h"
proof -
  define m where "m = Suc (length as - n)"
  have arith: "int (length as) - int n + 1 = int m" using n by (simp add: m_def)
  have "removeNthFronEnd h head (int n)
      = removeNthFromBegining h head (int (length as) - int n + 1)"
    using countNodes_chain[OF ch] by (simp add: removeNthFronEnd_def)
  hence call: "removeNthFronEnd h head (int n) = removeNthFromBegining h head (int m)"
    by (simp only: arith)
  have "0 < m" "m \<le> length as" using n by (simp_all add: m_def)
  from removeNthFromBegining_chain[OF ch this] have
    "\<exists>h' r. removeNthFromBegining h head (int m) = return (h', r)
       \<and> chain h' r (take (m - 1) as @ drop (Suc (m - 1)) as)
       \<and> h' ! (as ! (m - 1)) = h ! (as ! (m - 1))
       \<and> map val h' = map val h" .
  moreover have "m - 1 = length as - n" by (simp add: m_def)
  ultimately show ?thesis by (simp only: call)
qed

subsection \<open>Removing duplicates\<close>

lemma keep_first_run:
  "keep_first f (a # as) = a # keep_first f (dropWhile (\<lambda>b. f b = f a) as)"
proof (induction as)
  case Nil
  show ?case by simp
next
  case (Cons b as)
  show ?case
  proof (cases "f b = f a")
    case True
    with Cons show ?thesis by simp
  next
    case False
    thus ?thesis by simp
  qed
qed

lemma keep_first_cong:
  "\<forall>x \<in> set as. f x = g x \<Longrightarrow> keep_first f as = keep_first g as"
  by (induction f as rule: keep_first.induct) auto

lemma set_keep_first: "set (keep_first f as) \<subseteq> set as"
  by (induction f as rule: keep_first.induct) auto

lemma distinct_keep_first: "distinct as \<Longrightarrow> distinct (keep_first f as)"
proof (induction f as rule: keep_first.induct)
  case (3 f a b as)
  have "a \<notin> set (keep_first f (b # as))"
    using 3(3) set_keep_first[of f "b # as"] by auto
  with 3 show ?case by auto
qed simp_all

lemma map_keep_first: "map f (keep_first f as) = remdups_adj (map f as)"
  by (induction f as rule: keep_first.induct) auto

lemma keep_first_idem: "keep_first f (keep_first f as) = keep_first f as"
proof (induction f as rule: keep_first.induct)
  case (3 f a b as)
  show ?case
  proof (cases "f b = f a")
    case True
    with 3 show ?thesis by simp
  next
    case False
    obtain r where r: "keep_first f (b # as) = b # r"
      using keep_first_run[of f b as] by blast
    with False 3(2) show ?thesis by simp
  qed
qed simp_all

lemma distinct_remdups_adj_sorted:
  fixes xs :: "int list"
  shows "sorted xs \<Longrightarrow> distinct (remdups_adj xs)"
proof (induction xs rule: remdups_adj.induct)
  case (3 x y xs)
  show ?case
  proof (cases "x = y")
    case True
    with 3 show ?thesis by simp
  next
    case False
    with 3 have "x \<notin> set (y # xs)" by auto
    with False 3 show ?thesis by simp
  qed
qed simp_all

lemma removeDuplicates2_inner_loop:
  assumes a: "a < length h"
  shows "chain h (Some c) (c # xs) \<Longrightarrow>
    while_loop (removeDuplicates2_inner (Some a)) (h, Some c)
      = return (h, Some (last (c # takeWhile (\<lambda>b. val (h ! b) = val (h ! a)) xs)))"
proof (induction xs arbitrary: c)
  case Nil
  hence "removeDuplicates2_inner (Some a) (h, Some c) = leave (h, Some c)"
    by (simp add: removeDuplicates2_inner_def)
  hence "while_loop (removeDuplicates2_inner (Some a)) (h, Some c) = return (h, Some c)"
    by (rule while_loop_Leave)
  thus ?case by simp
next
  case (Cons x xs)
  hence c: "c < length h" "nxt (h ! c) = Some x" "x < length h"
    and rest: "chain h (Some x) (x # xs)"
    by simp_all
  show ?case
  proof (cases "val (h ! x) = val (h ! a)")
    case True
    with c a have "removeDuplicates2_inner (Some a) (h, Some c) = again (h, Some x)"
      by (simp add: removeDuplicates2_inner_def)
    from this Cons.IH[OF rest]
    have "while_loop (removeDuplicates2_inner (Some a)) (h, Some c)
      = return (h, Some (last (x # takeWhile (\<lambda>b. val (h ! b) = val (h ! a)) xs)))"
      by (rule while_loop_step)
    with True show ?thesis by simp
  next
    case False
    with c a have "removeDuplicates2_inner (Some a) (h, Some c) = leave (h, Some c)"
      by (simp add: removeDuplicates2_inner_def)
    hence "while_loop (removeDuplicates2_inner (Some a)) (h, Some c) = return (h, Some c)"
      by (rule while_loop_Leave)
    with False show ?thesis by simp
  qed
qed

lemma removeDuplicates2_loop:
  "chain h cur as \<Longrightarrow> \<forall>x \<in> set as. f x = val (h ! x) \<Longrightarrow>
   \<exists>h'. while_loop removeDuplicates2_body (h, cur) = return h'
      \<and> chain h' cur (keep_first f as)
      \<and> (\<forall>x. x \<notin> set (keep_first f as) \<longrightarrow> h' ! x = h ! x)
      \<and> map val h' = map val h"
proof (induction "length as" arbitrary: h cur as rule: less_induct)
  case less
  show ?case
  proof (cases as)
    case Nil
    with less.prems have "removeDuplicates2_body (h, cur) = leave h"
      by (simp add: removeDuplicates2_body_def)
    hence "while_loop removeDuplicates2_body (h, cur) = return h" by (rule while_loop_Leave)
    with Nil less.prems show ?thesis by simp
  next
    case (Cons a as')
    with less.prems have a: "cur = Some a" "a < length h" and rest: "chain h (nxt (h ! a)) as'"
      by simp_all
    from less.prems(1) have "distinct as" by (rule chain_distinct)
    with Cons have dist: "distinct (a # as')" by simp
    define run where "run = takeWhile (\<lambda>b. val (h ! b) = val (h ! a)) as'"
    define dw where "dw = dropWhile (\<lambda>b. val (h ! b) = val (h ! a)) as'"
    have as': "as' = run @ dw" by (simp add: run_def dw_def)
    have "dropWhile (\<lambda>b. f b = f a) as' = dw"
      unfolding dw_def using less.prems(2) Cons by (intro dropWhile_cong) auto
    hence kf: "keep_first f as = a # keep_first f dw"
      using Cons keep_first_run[of f a as'] by simp
    have inner: "while_loop (removeDuplicates2_inner (Some a)) (h, Some a)
        = return (h, Some (last (a # run)))"
      unfolding run_def using a(2) less.prems(1) Cons a(1)
      by (intro removeDuplicates2_inner_loop) simp_all
    show ?thesis
    proof (cases "run = []")
      case True
      hence dw_eq: "dw = as'" using as' by simp
      have step: "removeDuplicates2_body (h, cur) = again (h, nxt (h ! a))"
        using a inner True by (simp add: removeDuplicates2_body_def)
      have "length as' < length as" using Cons by simp
      moreover have "\<forall>x \<in> set as'. f x = val (h ! x)" using less.prems(2) Cons by simp
      ultimately obtain h' where
        run': "while_loop removeDuplicates2_body (h, nxt (h ! a)) = return h'"
        and ch': "chain h' (nxt (h ! a)) (keep_first f as')"
        and fr': "\<forall>x. x \<notin> set (keep_first f as') \<longrightarrow> h' ! x = h ! x"
        and v': "map val h' = map val h"
        using less.hyps[of as' h "nxt (h ! a)", OF _ rest] by blast
      have "a \<notin> set (keep_first f as')" using dist set_keep_first[of f as'] by auto
      with fr' have same: "h' ! a = h ! a" by simp
      have len: "length h' = length h" using v' by (rule map_val_length)
      from step run' have "while_loop removeDuplicates2_body (h, cur) = return h'"
        by (rule while_loop_step)
      moreover have "chain h' cur (keep_first f as)"
        using kf dw_eq a ch' same len by simp
      moreover have "\<forall>x. x \<notin> set (keep_first f as) \<longrightarrow> h' ! x = h ! x"
        using kf dw_eq fr' by simp
      ultimately show ?thesis using v' by blast
    next
      case False
      define l where "l = last run"
      define front where "front = butlast run"
      have run_eq: "run = front @ [l]" using False by (simp add: l_def front_def)
      with as' have as'_eq: "as' = front @ l # dw" by simp
      with dist have neq: "a \<noteq> l" and fresh: "a \<notin> set dw" by auto
      from rest as'_eq have "chain h (nxt (h ! a)) (front @ l # dw)" by simp
      then obtain r where "chain h r (l # dw)" unfolding chain_append by blast
      hence l: "l < length h" "chain h (nxt (h ! l)) dw" by simp_all
      let ?h2 = "h[a := (h ! a)\<lparr>nxt := nxt (h ! l)\<rparr>]"
      have "last (a # run) = l" using False by (simp add: l_def)
      hence step: "removeDuplicates2_body (h, cur) = again (?h2, cur)"
        using a inner neq l(1) by (simp add: removeDuplicates2_body_def)
      have ch2: "chain ?h2 cur (a # dw)" using a l(2) fresh by simp
      have "length (a # dw) < length as" using Cons as'_eq by simp
      moreover have "\<forall>x \<in> set (a # dw). f x = val (?h2 ! x)"
      proof
        fix x assume x: "x \<in> set (a # dw)"
        hence "x \<in> set as" using Cons as' by auto
        with less.prems have fx: "f x = val (h ! x)" and "x < length h"
          by (auto dest: chain_in_heap)
        moreover have "map val ?h2 = map val h" by simp
        ultimately have "val (?h2 ! x) = val (h ! x)" by (intro map_val_nth)
        with fx show "f x = val (?h2 ! x)" by simp
      qed
      ultimately obtain h' where
        run': "while_loop removeDuplicates2_body (?h2, cur) = return h'"
        and ch': "chain h' cur (keep_first f (a # dw))"
        and fr': "\<forall>x. x \<notin> set (keep_first f (a # dw)) \<longrightarrow> h' ! x = ?h2 ! x"
        and v': "map val h' = map val ?h2"
        using less.hyps[of "a # dw" ?h2 cur, OF _ ch2] by blast
      have "dropWhile (\<lambda>b. f b = f a) dw = dw"
      proof -
        have "dropWhile (\<lambda>b. f b = f a) dw = dropWhile (\<lambda>b. val (h ! b) = val (h ! a)) dw"
          using less.prems(2) Cons as' by (intro dropWhile_cong) auto
        thus ?thesis by (simp add: dw_def)
      qed
      hence kf2: "keep_first f (a # dw) = keep_first f as"
        using kf keep_first_run[of f a dw] by simp
      from step run' have "while_loop removeDuplicates2_body (h, cur) = return h'"
        by (rule while_loop_step)
      moreover have "chain h' cur (keep_first f as)" using ch' kf2 by simp
      moreover have "\<forall>x. x \<notin> set (keep_first f as) \<longrightarrow> h' ! x = h ! x"
      proof (intro allI impI)
        fix x assume x: "x \<notin> set (keep_first f as)"
        hence "x \<noteq> a" using kf by auto
        with x fr' kf2 show "h' ! x = h ! x" by simp
      qed
      moreover have "map val h' = map val h" using v' by simp
      ultimately show ?thesis by blast
    qed
  qed
qed

lemma removeDuplicates2_chain:
  assumes "chain h head as"
  shows "\<exists>h'. removeDuplicates2 h head = return (h', head)
           \<and> chain h' head (keep_first (key h) as)
           \<and> (\<forall>x. x \<notin> set (keep_first (key h) as) \<longrightarrow> h' ! x = h ! x)
           \<and> map val h' = map val h"
proof (cases "head = None")
  case True
  with assms show ?thesis by (simp add: removeDuplicates2_def)
next
  case False
  have "\<forall>x \<in> set as. key h x = val (h ! x)" by (simp add: key_def)
  from removeDuplicates2_loop[OF assms this] False show ?thesis
    by (auto simp: removeDuplicates2_def)
qed


lemma removed_not_in_rest:
  assumes "distinct as" "k < length as"
  shows "as ! k \<notin> set (take k as @ drop (Suc k) as)"
proof -
  from assms(2) have "as = take k as @ as ! k # drop (Suc k) as" by (rule id_take_nth_drop)
  hence "distinct (take k as @ as ! k # drop (Suc k) as)" using assms(1) by simp
  thus ?thesis by auto
qed

text \<open>
  C2, as the code has it. The removal operations unlink the removed nodes and
  leave them as they were: after \<^verbatim>\<open>removeNthFromEnd\<close> (both
  \<^verbatim>\<open>removeNthFromEnd2\<close> and \<^verbatim>\<open>removeNthFronEnd\<close>, for \<open>1 \<le> n \<le> length\<close>)
  and after \<^verbatim>\<open>removeDuplicatesSorted\<close> (\<^verbatim>\<open>removeDuplicates2\<close>) the returned
  chain no longer contains the removed nodes, and every removed node has the
  value and the \<^verbatim>\<open>next\<close> it had before the call.
\<close>

theorem removal_leaves_removed_nodes_unchanged:
  "(chain h head as \<and> 0 < n \<and> n \<le> length as \<longrightarrow>
      (\<exists>h' r. removeNthFromEnd2 h head (int n) = return (h', r)
          \<and> chain h' r (take (length as - n) as @ drop (Suc (length as - n)) as)
          \<and> as ! (length as - n) \<notin> set (take (length as - n) as @ drop (Suc (length as - n)) as)
          \<and> h' ! (as ! (length as - n)) = h ! (as ! (length as - n)))
    \<and> (\<exists>h' r. removeNthFronEnd h head (int n) = return (h', r)
          \<and> chain h' r (take (length as - n) as @ drop (Suc (length as - n)) as)
          \<and> as ! (length as - n) \<notin> set (take (length as - n) as @ drop (Suc (length as - n)) as)
          \<and> h' ! (as ! (length as - n)) = h ! (as ! (length as - n))))
 \<and> (chain h head as \<longrightarrow>
      (\<exists>h'. removeDuplicates2 h head = return (h', head)
          \<and> chain h' head (keep_first (key h) as)
          \<and> (\<forall>x \<in> set as - set (keep_first (key h) as). h' ! x = h ! x)))"
proof (intro conjI impI)
  assume a: "chain h head as \<and> 0 < n \<and> n \<le> length as"
  hence gone: "as ! (length as - n) \<notin> set (take (length as - n) as @ drop (Suc (length as - n)) as)"
    by (intro removed_not_in_rest) (auto dest: chain_distinct)
  from a removeNthFromEnd2_chain[of h head as n] gone
  show "\<exists>h' r. removeNthFromEnd2 h head (int n) = return (h', r)
          \<and> chain h' r (take (length as - n) as @ drop (Suc (length as - n)) as)
          \<and> as ! (length as - n) \<notin> set (take (length as - n) as @ drop (Suc (length as - n)) as)
          \<and> h' ! (as ! (length as - n)) = h ! (as ! (length as - n))"
    by blast
  from a removeNthFronEnd_chain[of h head as n] gone
  show "\<exists>h' r. removeNthFronEnd h head (int n) = return (h', r)
          \<and> chain h' r (take (length as - n) as @ drop (Suc (length as - n)) as)
          \<and> as ! (length as - n) \<notin> set (take (length as - n) as @ drop (Suc (length as - n)) as)
          \<and> h' ! (as ! (length as - n)) = h ! (as ! (length as - n))"
    by blast
next
  assume "chain h head as"
  from removeDuplicates2_chain[OF this]
  show "\<exists>h'. removeDuplicates2 h head = return (h', head)
          \<and> chain h' head (keep_first (key h) as)
          \<and> (\<forall>x \<in> set as - set (keep_first (key h) as). h' ! x = h ! x)"
    by blast
qed

text \<open>
  The list \<^verbatim>\<open>[1, 2, 3]\<close> with \<open>n = 2\<close>, and the list \<^verbatim>\<open>[1, 1, 2]\<close>: the removed
  node is node 1, and it is as before.
\<close>

theorem removal_leaves_removed_nodes_unchanged_example:
  "chain [\<lparr>val = 1, nxt = Some 1\<rparr>, \<lparr>val = 2, nxt = Some 2\<rparr>, \<lparr>val = 3, nxt = None\<rparr>]
     (Some 0) [0, 1, 2]
 \<and> (\<exists>h' r. removeNthFromEnd2 [\<lparr>val = 1, nxt = Some 1\<rparr>, \<lparr>val = 2, nxt = Some 2\<rparr>,
                               \<lparr>val = 3, nxt = None\<rparr>] (Some 0) 2 = return (h', r)
       \<and> chain h' r [0, 2] \<and> h' ! 1 = \<lparr>val = 2, nxt = Some 2\<rparr>)
 \<and> (\<exists>h' r. removeNthFronEnd [\<lparr>val = 1, nxt = Some 1\<rparr>, \<lparr>val = 2, nxt = Some 2\<rparr>,
                              \<lparr>val = 3, nxt = None\<rparr>] (Some 0) 2 = return (h', r)
       \<and> chain h' r [0, 2] \<and> h' ! 1 = \<lparr>val = 2, nxt = Some 2\<rparr>)
 \<and> chain [\<lparr>val = 1, nxt = Some 1\<rparr>, \<lparr>val = 1, nxt = Some 2\<rparr>, \<lparr>val = 2, nxt = None\<rparr>]
     (Some 0) [0, 1, 2]
 \<and> (\<exists>h'. removeDuplicates2 [\<lparr>val = 1, nxt = Some 1\<rparr>, \<lparr>val = 1, nxt = Some 2\<rparr>,
                             \<lparr>val = 2, nxt = None\<rparr>] (Some 0) = return (h', Some 0)
       \<and> chain h' (Some 0) [0, 2] \<and> h' ! 1 = \<lparr>val = 1, nxt = Some 2\<rparr>)"
proof -
  let ?a = "[\<lparr>val = 1, nxt = Some 1\<rparr>, \<lparr>val = 2, nxt = Some 2\<rparr>, \<lparr>val = 3, nxt = None\<rparr>]"
  let ?b = "[\<lparr>val = 1, nxt = Some 1\<rparr>, \<lparr>val = 1, nxt = Some 2\<rparr>, \<lparr>val = 2, nxt = None\<rparr>]"
  have a: "chain ?a (Some 0) [0, 1, 2]" and b: "chain ?b (Some 0) [0, 1, 2]" by simp_all
  have kf: "keep_first (key ?b) [0, 1, 2] = [0, 2]" by (simp add: key_def)
  from removal_leaves_removed_nodes_unchanged[of ?a "Some 0" "[0, 1, 2]" 2] a
  have "(\<exists>h' r. removeNthFromEnd2 ?a (Some 0) 2 = return (h', r)
          \<and> chain h' r [0, 2] \<and> h' ! 1 = \<lparr>val = 2, nxt = Some 2\<rparr>)
      \<and> (\<exists>h' r. removeNthFronEnd ?a (Some 0) 2 = return (h', r)
          \<and> chain h' r [0, 2] \<and> h' ! 1 = \<lparr>val = 2, nxt = Some 2\<rparr>)"
    by simp
  moreover have "\<exists>h'. removeDuplicates2 ?b (Some 0) = return (h', Some 0)
          \<and> chain h' (Some 0) [0, 2] \<and> h' ! 1 = \<lparr>val = 1, nxt = Some 2\<rparr>"
  proof -
    from removal_leaves_removed_nodes_unchanged[of ?b "Some 0" "[0, 1, 2]" 1, THEN conjunct2] b
    obtain h' where run: "removeDuplicates2 ?b (Some 0) = return (h', Some 0)"
      and ch: "chain h' (Some 0) [0, 2]"
      and same: "\<forall>x \<in> set [0, 1, 2] - set [0, 2]. h' ! x = ?b ! x"
      unfolding kf by blast
    from same have "h' ! 1 = ?b ! 1" by simp
    with run ch show ?thesis by simp
  qed
  ultimately show ?thesis using a b by blast
qed

text \<open>
  C2 as stated fails: on \<^verbatim>\<open>[1, 2, 3]\<close> with \<open>n = 2\<close> both functions return the
  chain node 0, node 2, and the \<^verbatim>\<open>next\<close> of the removed node 1 is still node 2,
  a node of the surviving chain; on \<^verbatim>\<open>[1, 1, 2]\<close> \<^verbatim>\<open>removeDuplicates2\<close>
  leaves the removed node 1 pointing to node 2 as well.
\<close>

theorem removal_next_not_cleared_counterexample:
  "removeNthFromEnd2 [\<lparr>val = 1, nxt = Some 1\<rparr>, \<lparr>val = 2, nxt = Some 2\<rparr>, \<lparr>val = 3, nxt = None\<rparr>]
     (Some 0) 2
   = return ([\<lparr>val = 1, nxt = Some 2\<rparr>, \<lparr>val = 2, nxt = Some 2\<rparr>, \<lparr>val = 3, nxt = None\<rparr>], Some 0)
 \<and> removeNthFronEnd [\<lparr>val = 1, nxt = Some 1\<rparr>, \<lparr>val = 2, nxt = Some 2\<rparr>, \<lparr>val = 3, nxt = None\<rparr>]
     (Some 0) 2
   = return ([\<lparr>val = 1, nxt = Some 2\<rparr>, \<lparr>val = 2, nxt = Some 2\<rparr>, \<lparr>val = 3, nxt = None\<rparr>], Some 0)
 \<and> removeDuplicates2 [\<lparr>val = 1, nxt = Some 1\<rparr>, \<lparr>val = 1, nxt = Some 2\<rparr>, \<lparr>val = 2, nxt = None\<rparr>]
     (Some 0)
   = return ([\<lparr>val = 1, nxt = Some 2\<rparr>, \<lparr>val = 1, nxt = Some 2\<rparr>, \<lparr>val = 2, nxt = None\<rparr>], Some 0)
 \<and> chain [\<lparr>val = 1, nxt = Some 2\<rparr>, \<lparr>val = 2, nxt = Some 2\<rparr>, \<lparr>val = 3, nxt = None\<rparr>] (Some 0) [0, 2]
 \<and> nxt ([\<lparr>val = 1, nxt = Some 2\<rparr>, \<lparr>val = 2, nxt = Some 2\<rparr>, \<lparr>val = 3, nxt = None\<rparr>] ! 1) \<noteq> None
 \<and> chain [\<lparr>val = 1, nxt = Some 2\<rparr>, \<lparr>val = 1, nxt = Some 2\<rparr>, \<lparr>val = 2, nxt = None\<rparr>] (Some 0) [0, 2]
 \<and> nxt ([\<lparr>val = 1, nxt = Some 2\<rparr>, \<lparr>val = 1, nxt = Some 2\<rparr>, \<lparr>val = 2, nxt = None\<rparr>] ! 1) \<noteq> None"
proof -
  have "removeNthFromEnd2 [\<lparr>val = 1, nxt = Some 1\<rparr>, \<lparr>val = 2, nxt = Some 2\<rparr>, \<lparr>val = 3, nxt = None\<rparr>]
     (Some 0) 2
   = return ([\<lparr>val = 1, nxt = Some 2\<rparr>, \<lparr>val = 2, nxt = Some 2\<rparr>, \<lparr>val = 3, nxt = None\<rparr>], Some 0)"
    by code_simp
  moreover have "removeNthFronEnd [\<lparr>val = 1, nxt = Some 1\<rparr>, \<lparr>val = 2, nxt = Some 2\<rparr>, \<lparr>val = 3, nxt = None\<rparr>]
     (Some 0) 2
   = return ([\<lparr>val = 1, nxt = Some 2\<rparr>, \<lparr>val = 2, nxt = Some 2\<rparr>, \<lparr>val = 3, nxt = None\<rparr>], Some 0)"
    by code_simp
  moreover have "removeDuplicates2 [\<lparr>val = 1, nxt = Some 1\<rparr>, \<lparr>val = 1, nxt = Some 2\<rparr>, \<lparr>val = 2, nxt = None\<rparr>]
     (Some 0)
   = return ([\<lparr>val = 1, nxt = Some 2\<rparr>, \<lparr>val = 1, nxt = Some 2\<rparr>, \<lparr>val = 2, nxt = None\<rparr>], Some 0)"
    by code_simp
  ultimately show ?thesis by simp
qed

text \<open>
  C8. \<^verbatim>\<open>removeDuplicatesSorted\<close> (\<^verbatim>\<open>removeDuplicates2\<close>) is idempotent on
  sorted chains: applied to a non-decreasing chain it returns a chain whose
  values are those of the input with every run of equal values collapsed to one
  (each value once, in the original order), and applied to that chain again it
  returns the same chain with the same values.
\<close>

theorem removeDuplicatesSorted_idempotent:
  assumes "chain h head as" and "sorted (vals h as)"
  shows "\<exists>h1 r1 bs h2 r2.
           removeDuplicates2 h head = return (h1, r1) \<and> chain h1 r1 bs
         \<and> removeDuplicates2 h1 r1 = return (h2, r2) \<and> chain h2 r2 bs
         \<and> vals h2 bs = vals h1 bs
         \<and> vals h1 bs = remdups_adj (vals h as)
         \<and> distinct (vals h1 bs) \<and> set (vals h1 bs) = set (vals h as)
         \<and> sorted (vals h1 bs)"
proof -
  define bs where "bs = keep_first (key h) as"
  from removeDuplicates2_chain[OF assms(1)] obtain h1 where
    one: "removeDuplicates2 h head = return (h1, head)" "chain h1 head bs"
    and v1: "map val h1 = map val h"
    unfolding bs_def by blast
  from removeDuplicates2_chain[OF one(2)] obtain h2 where
    two: "removeDuplicates2 h1 head = return (h2, head)"
      "chain h2 head (keep_first (key h1) bs)"
    and v2: "map val h2 = map val h1"
    by blast
  have in_heap: "\<forall>x \<in> set bs. x < length h"
    using set_keep_first[of "key h" as] assms(1) unfolding bs_def
    by (auto dest: chain_in_heap)
  have "\<forall>x \<in> set bs. key h1 x = key h x"
    using in_heap v1 by (auto simp: key_def intro: map_val_nth)
  hence "keep_first (key h1) bs = keep_first (key h) bs" by (rule keep_first_cong)
  hence again: "keep_first (key h1) bs = bs" by (simp add: bs_def keep_first_idem)
  have vh1: "vals h1 bs = vals h bs" using v1 in_heap by (rule vals_same)
  have "length h1 = length h" using v1 by (rule map_val_length)
  with in_heap v2 have vh2: "vals h2 bs = vals h1 bs" by (intro vals_same) simp_all
  have "vals h bs = map (key h) (keep_first (key h) as)"
    by (simp add: vals_def key_def bs_def)
  also have "\<dots> = remdups_adj (map (key h) as)" by (rule map_keep_first)
  also have "map (key h) as = vals h as" by (simp add: vals_def key_def)
  finally have eq: "vals h1 bs = remdups_adj (vals h as)" using vh1 by simp
  have "distinct (vals h1 bs)" "set (vals h1 bs) = set (vals h as)" "sorted (vals h1 bs)"
    using assms(2) unfolding eq by (simp_all add: distinct_remdups_adj_sorted)
  with one two again vh2 eq show ?thesis by auto
qed

text \<open>
  The list \<^verbatim>\<open>[1, 1, 2, 2]\<close> of the tests: the first call leaves \<^verbatim>\<open>[1, 2]\<close>, and
  so does the second.
\<close>

theorem removeDuplicatesSorted_idempotent_example:
  "chain [\<lparr>val = 1, nxt = Some 1\<rparr>, \<lparr>val = 1, nxt = Some 2\<rparr>, \<lparr>val = 2, nxt = Some 3\<rparr>,
          \<lparr>val = 2, nxt = None\<rparr>] (Some 0) [0, 1, 2, 3]
 \<and> sorted (vals [\<lparr>val = 1, nxt = Some 1\<rparr>, \<lparr>val = 1, nxt = Some 2\<rparr>, \<lparr>val = 2, nxt = Some 3\<rparr>,
          \<lparr>val = 2, nxt = None\<rparr>] [0, 1, 2, 3])
 \<and> (\<exists>h1 r1 bs h2 r2.
       removeDuplicates2 [\<lparr>val = 1, nxt = Some 1\<rparr>, \<lparr>val = 1, nxt = Some 2\<rparr>,
          \<lparr>val = 2, nxt = Some 3\<rparr>, \<lparr>val = 2, nxt = None\<rparr>] (Some 0) = return (h1, r1)
     \<and> chain h1 r1 bs \<and> removeDuplicates2 h1 r1 = return (h2, r2) \<and> chain h2 r2 bs
     \<and> vals h1 bs = [1, 2] \<and> vals h2 bs = [1, 2])"
proof -
  let ?h = "[\<lparr>val = 1, nxt = Some 1\<rparr>, \<lparr>val = 1, nxt = Some 2\<rparr>, \<lparr>val = 2, nxt = Some 3\<rparr>,
          \<lparr>val = 2, nxt = None\<rparr>]"
  have c: "chain ?h (Some 0) [0, 1, 2, 3]" by simp
  have v: "vals ?h [0, 1, 2, 3] = [1, 1, 2, 2]" by (simp add: vals_def)
  hence s: "sorted (vals ?h [0, 1, 2, 3])" by simp
  from removeDuplicatesSorted_idempotent[OF c s] obtain h1 r1 bs h2 r2 where
    "removeDuplicates2 ?h (Some 0) = return (h1, r1)" "chain h1 r1 bs"
    "removeDuplicates2 h1 r1 = return (h2, r2)" "chain h2 r2 bs"
    "vals h2 bs = vals h1 bs" "vals h1 bs = remdups_adj (vals ?h [0, 1, 2, 3])"
    by blast
  moreover from this(6) have "vals h1 bs = [1, 2]" unfolding v by simp
  ultimately show ?thesis using c s by (intro conjI exI[of _ h1] exI[of _ r1] exI[of _ bs]
        exI[of _ h2] exI[of _ r2]) simp_all
qed

subsection \<open>Partition\<close>

lemma path_grow: "path h p as q \<Longrightarrow> path (h @ xs) p as q"
  by (induction as arbitrary: p) (auto simp: nth_append)

lemma chain_grow: "chain h p as \<Longrightarrow> chain (h @ xs) p as"
  unfolding chain_def by (rule path_grow)

lemma partition2_loop:
  "chain h head as \<Longrightarrow>
   path h left lpre (Some l) \<Longrightarrow> path h right rpre (Some r) \<Longrightarrow>
   l < length h \<Longrightarrow> r < length h \<Longrightarrow>
   distinct (lpre @ [l] @ rpre @ [r] @ as) \<Longrightarrow>
   \<forall>x \<in> set as. f x = val (h ! x) \<Longrightarrow>
   \<exists>h' lpre' l' rpre' r'.
      while_loop (partition2_body v) (h, head, Some l, Some r) = return (h', Some l', Some r')
    \<and> path h' left lpre' (Some l') \<and> path h' right rpre' (Some r')
    \<and> lpre' @ [l'] = lpre @ l # filter (\<lambda>a. f a < v) as
    \<and> rpre' @ [r'] = rpre @ r # filter (\<lambda>a. \<not> f a < v) as
    \<and> map val h' = map val h
    \<and> (filter (\<lambda>a. \<not> f a < v) as = [] \<longrightarrow> nxt (h' ! r) = nxt (h ! r))"
proof (induction as arbitrary: h head lpre l rpre r)
  case Nil
  hence "partition2_body v (h, head, Some l, Some r) = leave (h, Some l, Some r)"
    by (simp add: partition2_body_def)
  hence "while_loop (partition2_body v) (h, head, Some l, Some r) = return (h, Some l, Some r)"
    by (rule while_loop_Leave)
  with Nil.prems(2,3) show ?case by auto
next
  case (Cons a as)
  from Cons.prems(1) have a: "head = Some a" "a < length h" and rest: "chain h (nxt (h ! a)) as"
    by simp_all
  from Cons.prems(7) have fa: "f a = val (h ! a)" by simp
  note dist = Cons.prems(6)
  show ?case
  proof (cases "f a < v")
    case True
    let ?h1 = "h[l := (h ! l)\<lparr>nxt := Some a\<rparr>]"
    from dist have neq: "a \<noteq> l" "l \<noteq> r" "l \<notin> set as" "l \<notin> set lpre" "l \<notin> set rpre"
      by auto
    have step: "partition2_body v (h, head, Some l, Some r)
        = again (?h1, nxt (h ! a), Some a, Some r)"
      using a True fa Cons.prems(4) neq(1) by (simp add: partition2_body_def)
    have p1: "chain ?h1 (nxt (h ! a)) as" using rest neq by simp
    have p2: "path ?h1 left (lpre @ [l]) (Some a)"
      using Cons.prems(2,4) neq by (simp add: path_snoc)
    have p3: "path ?h1 right rpre (Some r)" using Cons.prems(3) neq by simp
    have p4: "a < length ?h1" "r < length ?h1" using a Cons.prems(5) by simp_all
    have p5: "distinct ((lpre @ [l]) @ [a] @ rpre @ [r] @ as)" using dist by auto
    have p6: "\<forall>x \<in> set as. f x = val (?h1 ! x)"
    proof
      fix x assume x: "x \<in> set as"
      with rest have "x < length h" by (rule chain_in_heap)
      moreover have "map val ?h1 = map val h" by simp
      ultimately have "val (?h1 ! x) = val (h ! x)" by (intro map_val_nth)
      with x Cons.prems(7) show "f x = val (?h1 ! x)" by simp
    qed
    from Cons.IH[OF p1 p2 p3 p4 p5 p6] obtain h' lpre' l' rpre' r' where
      run: "while_loop (partition2_body v) (?h1, nxt (h ! a), Some a, Some r)
          = return (h', Some l', Some r')"
      and paths: "path h' left lpre' (Some l')" "path h' right rpre' (Some r')"
      and ls: "lpre' @ [l'] = (lpre @ [l]) @ a # filter (\<lambda>a. f a < v) as"
      and rs: "rpre' @ [r'] = rpre @ r # filter (\<lambda>a. \<not> f a < v) as"
      and vs: "map val h' = map val ?h1"
      and keep: "filter (\<lambda>a. \<not> f a < v) as = [] \<longrightarrow> nxt (h' ! r) = nxt (?h1 ! r)"
      by blast
    from step run have "while_loop (partition2_body v) (h, head, Some l, Some r)
        = return (h', Some l', Some r')"
      by (rule while_loop_step)
    moreover have "lpre' @ [l'] = lpre @ l # filter (\<lambda>a. f a < v) (a # as)"
      using ls True by simp
    moreover have "rpre' @ [r'] = rpre @ r # filter (\<lambda>a. \<not> f a < v) (a # as)"
      using rs True by simp
    moreover have "map val h' = map val h" using vs by simp
    moreover have "filter (\<lambda>a. \<not> f a < v) (a # as) = [] \<longrightarrow> nxt (h' ! r) = nxt (h ! r)"
      using keep True neq by simp
    ultimately show ?thesis using paths by blast
  next
    case False
    let ?h1 = "h[r := (h ! r)\<lparr>nxt := Some a\<rparr>]"
    from dist have neq: "a \<noteq> r" "l \<noteq> r" "r \<notin> set as" "r \<notin> set lpre" "r \<notin> set rpre"
      by auto
    have step: "partition2_body v (h, head, Some l, Some r)
        = again (?h1, nxt (h ! a), Some l, Some a)"
      using a False fa Cons.prems(5) neq(1) by (simp add: partition2_body_def)
    have p1: "chain ?h1 (nxt (h ! a)) as" using rest neq by simp
    have p2: "path ?h1 left lpre (Some l)" using Cons.prems(2) neq by simp
    have p3: "path ?h1 right (rpre @ [r]) (Some a)"
      using Cons.prems(3,5) neq by (simp add: path_snoc)
    have p4: "l < length ?h1" "a < length ?h1" using a Cons.prems(4) by simp_all
    have p5: "distinct (lpre @ [l] @ (rpre @ [r]) @ [a] @ as)" using dist by auto
    have p6: "\<forall>x \<in> set as. f x = val (?h1 ! x)"
    proof
      fix x assume x: "x \<in> set as"
      with rest have "x < length h" by (rule chain_in_heap)
      moreover have "map val ?h1 = map val h" by simp
      ultimately have "val (?h1 ! x) = val (h ! x)" by (intro map_val_nth)
      with x Cons.prems(7) show "f x = val (?h1 ! x)" by simp
    qed
    from Cons.IH[OF p1 p2 p3 p4 p5 p6] obtain h' lpre' l' rpre' r' where
      run: "while_loop (partition2_body v) (?h1, nxt (h ! a), Some l, Some a)
          = return (h', Some l', Some r')"
      and paths: "path h' left lpre' (Some l')" "path h' right rpre' (Some r')"
      and ls: "lpre' @ [l'] = lpre @ l # filter (\<lambda>a. f a < v) as"
      and rs: "rpre' @ [r'] = (rpre @ [r]) @ a # filter (\<lambda>a. \<not> f a < v) as"
      and vs: "map val h' = map val ?h1"
      by blast
    from step run have "while_loop (partition2_body v) (h, head, Some l, Some r)
        = return (h', Some l', Some r')"
      by (rule while_loop_step)
    moreover have "lpre' @ [l'] = lpre @ l # filter (\<lambda>a. f a < v) (a # as)"
      using ls False by simp
    moreover have "rpre' @ [r'] = rpre @ r # filter (\<lambda>a. \<not> f a < v) (a # as)"
      using rs False by simp
    moreover have "map val h' = map val h" using vs by simp
    moreover have "filter (\<lambda>a. \<not> f a < v) (a # as) = [] \<longrightarrow> nxt (h' ! r) = nxt (h ! r)"
      using False by simp
    ultimately show ?thesis using paths by blast
  qed
qed

lemma partition2_join:
  assumes lp: "path h (Some L) lpre (Some l)" and rp: "path h (Some R) rpre (Some r)"
    and ls: "lpre @ [l] = L # ls" and rs: "rpre @ [r] = R # rs"
    and dist: "distinct (L # ls @ R # rs)"
    and valid: "l < length h" "r < length h"
    and empty: "rs = [] \<longrightarrow> nxt (h ! R) = None"
  defines "h4 \<equiv> h[l := (h ! l)\<lparr>nxt := nxt (h ! R)\<rparr>]"
  defines "h5 \<equiv> h4[r := (h4 ! r)\<lparr>nxt := None\<rparr>]"
  shows "chain h5 (nxt (h5 ! L)) (ls @ rs)"
proof -
  define rn where "rn = nxt (h ! R)"
  have d1: "distinct (lpre @ [l])" "distinct (rpre @ [r])"
    and d2: "set (lpre @ [l]) \<inter> set (rpre @ [r]) = {}"
    using dist unfolding ls rs by auto
  hence fresh: "l \<notin> set lpre" "r \<notin> set lpre" "l \<noteq> r" "l \<notin> set rpre" "r \<notin> set rpre"
    by auto
  have len: "length h5 = length h" by (simp add: h5_def h4_def)
  have "path h5 (Some L) lpre (Some l)" using lp fresh by (simp add: h5_def h4_def)
  moreover have "nxt (h5 ! l) = rn" using valid fresh by (simp add: h5_def h4_def rn_def)
  ultimately have "path h5 (Some L) (lpre @ [l]) rn" using valid len by (simp add: path_snoc)
  hence left_part: "path h5 (nxt (h5 ! L)) ls rn" unfolding ls by simp
  have right_part: "chain h5 rn rs"
  proof (cases "rs = []")
    case True
    with empty show ?thesis by (simp add: rn_def)
  next
    case False
    with rs obtain rp' where rpre: "rpre = R # rp'" and rs': "rs = rp' @ [r]"
      by (cases rpre) auto
    from rp rpre have "path h rn rp' (Some r)" by (simp add: rn_def)
    moreover from fresh rpre have "l \<notin> set rp'" "r \<notin> set rp'" by auto
    ultimately have "path h5 rn rp' (Some r)" by (simp add: h5_def h4_def)
    moreover have "nxt (h5 ! r) = None" using valid by (simp add: h5_def h4_def)
    ultimately show ?thesis unfolding rs' chain_def using valid len by (simp add: path_snoc)
  qed
  from left_part right_part show ?thesis unfolding chain_append by blast
qed

lemma partition2_chain:
  assumes ch: "chain h head as"
  shows "\<exists>h' r. partition2 h head v = return (h', r)
           \<and> chain h' r (filter (\<lambda>a. key h a < v) as @ filter (\<lambda>a. \<not> key h a < v) as)
           \<and> (\<forall>a < length h. val (h' ! a) = val (h ! a))"
proof -
  define L where "L = length h"
  define R where "R = Suc (length h)"
  define h2 where "h2 = (h @ [\<lparr>val = 0, nxt = None\<rparr>]) @ [\<lparr>val = 0, nxt = None\<rparr>]"
  define ls where "ls = filter (\<lambda>a. key h a < v) as"
  define rs where "rs = filter (\<lambda>a. \<not> key h a < v) as"
  have in_heap: "\<forall>x \<in> set as. x < length h" using ch by (auto dest: chain_in_heap)
  have ch2: "chain h2 head as" unfolding h2_def using ch by (intro chain_grow)
  have R_next: "nxt (h2 ! R) = None" by (simp add: h2_def R_def nth_append)
  have valid: "L < length h2" "R < length h2" by (simp_all add: h2_def L_def R_def)
  have "distinct as" using ch by (rule chain_distinct)
  hence dist: "distinct ([] @ [L] @ [] @ [R] @ as)"
    using in_heap by (auto simp: L_def R_def)
  have agree: "\<forall>x \<in> set as. key h x = val (h2 ! x)"
    using in_heap by (simp add: key_def h2_def nth_append)
  have "path h2 (Some L) [] (Some L)" "path h2 (Some R) [] (Some R)" by simp_all
  from partition2_loop[OF ch2 this valid dist agree, of v]
  obtain h3 lpre l rpre r where
    run: "while_loop (partition2_body v) (h2, head, Some L, Some R) = return (h3, Some l, Some r)"
    and paths: "path h3 (Some L) lpre (Some l)" "path h3 (Some R) rpre (Some r)"
    and lists: "lpre @ [l] = L # ls" "rpre @ [r] = R # rs"
    and vs: "map val h3 = map val h2"
    and keep: "rs = [] \<longrightarrow> nxt (h3 ! R) = nxt (h2 ! R)"
    unfolding ls_def rs_def by auto
  have len3: "length h3 = length h2" using vs by (rule map_val_length)
  have "set (lpre @ [l]) = set (L # ls)" "set (rpre @ [r]) = set (R # rs)"
    using lists by simp_all
  hence "l \<in> set (L # ls)" "r \<in> set (R # rs)" by auto
  hence lr: "l < length h3" "r < length h3"
    using in_heap valid len3 by (auto simp: ls_def rs_def h2_def)
  have dist': "distinct (L # ls @ R # rs)"
    using \<open>distinct as\<close> in_heap by (auto simp: ls_def rs_def L_def R_def)
  have empty: "rs = [] \<longrightarrow> nxt (h3 ! R) = None" using keep R_next by simp
  let ?h4 = "h3[l := (h3 ! l)\<lparr>nxt := nxt (h3 ! R)\<rparr>]"
  let ?h5 = "?h4[r := (?h4 ! r)\<lparr>nxt := None\<rparr>]"
  have joined: "chain ?h5 (nxt (?h5 ! L)) (ls @ rs)"
    using paths lists dist' lr empty by (rule partition2_join)
  have nodes: "Node h 0 = (h @ [\<lparr>val = 0, nxt = None\<rparr>], Some L)"
    "Node (h @ [\<lparr>val = 0, nxt = None\<rparr>]) 0 = (h2, Some R)"
    by (simp_all add: Node_def h2_def L_def R_def)
  have "partition2 h head v =
      after (while_loop (partition2_body v) (h2, head, Some L, Some R)) (\<lambda>(h3, l, r).
        ebind (get_next h3 (Some R)) (\<lambda>rn.
        ebind (set_next h3 l rn) (\<lambda>h4.
        ebind (set_next h4 r None) (\<lambda>h5.
        ebind (get_next h5 (Some L)) (\<lambda>res.
        return (h5, res))))))"
    by (simp add: partition2_def nodes)
  hence "partition2 h head v = return (?h5, nxt (?h5 ! L))"
    using run lr valid len3 by simp
  moreover have "\<forall>a < length h. val (?h5 ! a) = val (h ! a)"
  proof (intro allI impI)
    fix a assume a: "a < length h"
    hence "a < length h2" by (simp add: h2_def)
    moreover have "map val ?h5 = map val h2" using vs by simp
    ultimately have "val (?h5 ! a) = val (h2 ! a)" by (intro map_val_nth)
    with a show "val (?h5 ! a) = val (h ! a)" by (simp add: h2_def nth_append)
  qed
  ultimately show ?thesis using joined unfolding ls_def rs_def by blast
qed


text \<open>
  C6. For every acyclic chain and pivot, \<^verbatim>\<open>partition\<close> (\<^verbatim>\<open>partition2\<close>) returns
  the chain that consists of the nodes with value \<open>< pivot\<close>, in their input
  order, followed by the nodes with value \<open>\<ge> pivot\<close>, in their input order;
  the values of the nodes are unchanged. When every value is \<open>\<ge> pivot\<close> the
  chain is the input chain.
\<close>

theorem partition_stable:
  assumes "chain h head as"
  shows "\<exists>h' r bs. partition2 h head pivot = return (h', r) \<and> chain h' r bs
           \<and> bs = filter (\<lambda>a. key h a < pivot) as @ filter (\<lambda>a. \<not> key h a < pivot) as
           \<and> vals h' bs = filter (\<lambda>x. x < pivot) (vals h as)
                            @ filter (\<lambda>x. \<not> x < pivot) (vals h as)
           \<and> ((\<forall>x \<in> set (vals h as). pivot \<le> x) \<longrightarrow> bs = as)"
proof -
  define bs where "bs = filter (\<lambda>a. key h a < pivot) as @ filter (\<lambda>a. \<not> key h a < pivot) as"
  from partition2_chain[OF assms, of pivot] obtain h' r where
    run: "partition2 h head pivot = return (h', r)" and ch: "chain h' r bs"
    and vs: "\<forall>a < length h. val (h' ! a) = val (h ! a)"
    unfolding bs_def by blast
  have "\<forall>a \<in> set bs. a < length h" using assms by (auto simp: bs_def dest: chain_in_heap)
  with vs have "vals h' bs = map (key h) bs" by (simp add: vals_def key_def)
  also have "\<dots> = filter (\<lambda>x. x < pivot) (map (key h) as)
                  @ filter (\<lambda>x. \<not> x < pivot) (map (key h) as)"
    by (simp add: bs_def filter_map comp_def)
  also have "map (key h) as = vals h as" by (simp add: vals_def key_def)
  finally have vals_eq: "vals h' bs = filter (\<lambda>x. x < pivot) (vals h as)
                            @ filter (\<lambda>x. \<not> x < pivot) (vals h as)" .
  have "(\<forall>x \<in> set (vals h as). pivot \<le> x) \<longrightarrow> bs = as"
  proof
    assume "\<forall>x \<in> set (vals h as). pivot \<le> x"
    hence "\<forall>a \<in> set as. \<not> key h a < pivot" by (auto simp: vals_def key_def)
    thus "bs = as" by (simp add: bs_def)
  qed
  with run ch vals_eq show ?thesis unfolding bs_def by blast
qed

text \<open>
  The list \<^verbatim>\<open>[1, 2, 3, 4]\<close> with pivot 0 stays as it is; the list
  \<^verbatim>\<open>[3, 1, 4, 1, 5]\<close> with pivot 3 becomes \<^verbatim>\<open>[1, 1, 3, 4, 5]\<close>, with the two
  1s and the nodes 3, 4, 5 in their input order.
\<close>

theorem partition_stable_examples:
  "chain [\<lparr>val = 1, nxt = Some 1\<rparr>, \<lparr>val = 2, nxt = Some 2\<rparr>, \<lparr>val = 3, nxt = Some 3\<rparr>,
          \<lparr>val = 4, nxt = None\<rparr>] (Some 0) [0, 1, 2, 3]
 \<and> (\<exists>h' r. partition2 [\<lparr>val = 1, nxt = Some 1\<rparr>, \<lparr>val = 2, nxt = Some 2\<rparr>,
          \<lparr>val = 3, nxt = Some 3\<rparr>, \<lparr>val = 4, nxt = None\<rparr>] (Some 0) 0 = return (h', r)
       \<and> chain h' r [0, 1, 2, 3] \<and> vals h' [0, 1, 2, 3] = [1, 2, 3, 4])
 \<and> chain [\<lparr>val = 3, nxt = Some 1\<rparr>, \<lparr>val = 1, nxt = Some 2\<rparr>, \<lparr>val = 4, nxt = Some 3\<rparr>,
          \<lparr>val = 1, nxt = Some 4\<rparr>, \<lparr>val = 5, nxt = None\<rparr>] (Some 0) [0, 1, 2, 3, 4]
 \<and> (\<exists>h' r. partition2 [\<lparr>val = 3, nxt = Some 1\<rparr>, \<lparr>val = 1, nxt = Some 2\<rparr>,
          \<lparr>val = 4, nxt = Some 3\<rparr>, \<lparr>val = 1, nxt = Some 4\<rparr>, \<lparr>val = 5, nxt = None\<rparr>]
          (Some 0) 3 = return (h', r)
       \<and> chain h' r [1, 3, 0, 2, 4] \<and> vals h' [1, 3, 0, 2, 4] = [1, 1, 3, 4, 5])"
proof -
  let ?a = "[\<lparr>val = 1, nxt = Some 1\<rparr>, \<lparr>val = 2, nxt = Some 2\<rparr>, \<lparr>val = 3, nxt = Some 3\<rparr>,
          \<lparr>val = 4, nxt = None\<rparr>]"
  let ?b = "[\<lparr>val = 3, nxt = Some 1\<rparr>, \<lparr>val = 1, nxt = Some 2\<rparr>, \<lparr>val = 4, nxt = Some 3\<rparr>,
          \<lparr>val = 1, nxt = Some 4\<rparr>, \<lparr>val = 5, nxt = None\<rparr>]"
  have a: "chain ?a (Some 0) [0, 1, 2, 3]" and b: "chain ?b (Some 0) [0, 1, 2, 3, 4]"
    by simp_all
  from partition_stable[OF a, of 0]
  have "\<exists>h' r. partition2 ?a (Some 0) 0 = return (h', r)
       \<and> chain h' r [0, 1, 2, 3] \<and> vals h' [0, 1, 2, 3] = [1, 2, 3, 4]"
    by (simp add: key_def vals_def)
  moreover from partition_stable[OF b, of 3]
  have "\<exists>h' r. partition2 ?b (Some 0) 3 = return (h', r)
       \<and> chain h' r [1, 3, 0, 2, 4] \<and> vals h' [1, 3, 0, 2, 4] = [1, 1, 3, 4, 5]"
    by (simp add: key_def vals_def)
  ultimately show ?thesis using a b by blast
qed

subsection \<open>Reversal in groups\<close>

lemma reverse_groups_short: "k = 0 \<or> length xs < k \<Longrightarrow> reverse_groups k xs = xs"
  by (subst reverse_groups.simps) simp

lemma reverse_groups_full:
  "0 < k \<Longrightarrow> k \<le> length xs \<Longrightarrow>
   reverse_groups k xs = rev (take k xs) @ reverse_groups k (drop k xs)"
  by (subst reverse_groups.simps) simp

lemma reverse_groups_one: "reverse_groups (Suc 0) xs = xs"
proof (induction xs)
  case Nil
  show ?case by (simp add: reverse_groups_short)
next
  case (Cons x xs)
  thus ?case by (simp add: reverse_groups_full)
qed

lemma map_reverse_groups: "map f (reverse_groups k xs) = reverse_groups k (map f xs)"
proof (induction k xs rule: reverse_groups.induct)
  case (1 k xs)
  show ?case
  proof (cases "k = 0 \<or> length xs < k")
    case True
    thus ?thesis by (simp add: reverse_groups_short)
  next
    case False
    hence "map f (reverse_groups k (drop k xs)) = reverse_groups k (map f (drop k xs))"
      by (intro 1) simp
    with False show ?thesis by (simp add: reverse_groups_full rev_map take_map drop_map)
  qed
qed

lemma set_reverse_groups: "set (reverse_groups k xs) = set xs"
proof (induction k xs rule: reverse_groups.induct)
  case (1 k xs)
  show ?case
  proof (cases "k = 0 \<or> length xs < k")
    case True
    thus ?thesis by (simp add: reverse_groups_short)
  next
    case False
    hence "set (reverse_groups k (drop k xs)) = set (drop k xs)" by (intro 1) simp
    moreover have "set (take k xs) \<union> set (drop k xs) = set xs"
      by (metis append_take_drop_id set_append)
    ultimately show ?thesis using False by (simp add: reverse_groups_full)
  qed
qed

lemma printList_chain: "chain h p as \<Longrightarrow> printList h p = return h"
  unfolding printList_def
proof (induction as arbitrary: p)
  case Nil
  hence "printList_body (h, p) = leave h" by (simp add: printList_body_def)
  thus ?case by (rule while_loop_Leave)
next
  case (Cons a as)
  hence "printList_body (h, p) = again (h, nxt (h ! a))" by (simp add: printList_body_def)
  moreover have "while_loop printList_body (h, nxt (h ! a)) = return h"
    using Cons.prems by (intro Cons.IH) simp
  ultimately show ?case by (rule while_loop_step)
qed

lemma findTail_loop:
  assumes ch: "chain h head as" and K: "K = max 1 (nat k)"
  shows "j < length as \<Longrightarrow> Suc j \<le> K \<Longrightarrow>
    while_loop (findTail_body head k) (h, refat as j, int j + 1)
      = return (h, if K \<le> length as then Some (as ! (K - 1)) else head, K \<le> length as)"
proof (induction "K - j" arbitrary: j rule: less_induct)
  case less
  have cmp: "int j + 1 < k \<longleftrightarrow> Suc j < K" unfolding K by auto
  from less.prems have node: "refat as j = Some (as ! j)"
    "get_next h (refat as j) = Inr (refat as (Suc j))"
    using get_next_refat[OF ch, of j] by (simp_all add: refat_def)
  show ?case
  proof (cases "Suc j < K")
    case False
    with less.prems have eq: "K = Suc j" by simp
    from False cmp have "findTail_body head k (h, refat as j, int j + 1)
        = leave (h, refat as j, True)"
      by (simp add: findTail_body_def)
    hence "while_loop (findTail_body head k) (h, refat as j, int j + 1)
        = return (h, refat as j, True)"
      by (rule while_loop_Leave)
    with eq node less.prems show ?thesis by simp
  next
    case True
    show ?thesis
    proof (cases "Suc j < length as")
      case False
      hence "refat as (Suc j) = None" by (simp add: refat_def)
      with True cmp node have "findTail_body head k (h, refat as j, int j + 1)
          = leave (h, head, False)"
        by (simp add: findTail_body_def)
      hence "while_loop (findTail_body head k) (h, refat as j, int j + 1)
          = return (h, head, False)"
        by (rule while_loop_Leave)
      moreover from True False have "\<not> K \<le> length as" by simp
      ultimately show ?thesis by simp
    next
      case lt: True
      hence "refat as (Suc j) = Some (as ! Suc j)" by (simp add: refat_def)
      with True cmp node have "findTail_body head k (h, refat as j, int j + 1)
          = again (h, refat as (Suc j), int (Suc j) + 1)"
        by (simp add: findTail_body_def add.commute)
      moreover have "while_loop (findTail_body head k) (h, refat as (Suc j), int (Suc j) + 1)
          = return (h, if K \<le> length as then Some (as ! (K - 1)) else head, K \<le> length as)"
        using True lt by (intro less.hyps) simp_all
      ultimately show ?thesis by (rule while_loop_step)
    qed
  qed
qed

lemma findTail_chain:
  assumes ch: "chain h head as" and K: "K = max 1 (nat k)"
  shows "findTail h head k
    = return (h, if K \<le> length as then Some (as ! (K - 1)) else head, K \<le> length as)"
proof (cases as)
  case Nil
  with ch K show ?thesis by (simp add: findTail_def)
next
  case (Cons a as')
  with ch have "head \<noteq> None" by simp
  moreover from Cons K have "0 < length as" "Suc 0 \<le> K" by simp_all
  from findTail_loop[OF ch K this]
  have "while_loop (findTail_body head k) (h, head, 1)
    = return (h, if K \<le> length as then Some (as ! (K - 1)) else head, K \<le> length as)"
    using refat_0[OF ch] by simp
  ultimately show ?thesis by (simp add: findTail_def)
qed

lemma reverseHeadToTail_loop:
  "path h hd' xs tn \<Longrightarrow> chain h (if nl = None then tn else nl) ys \<Longrightarrow>
   distinct (xs @ ys) \<Longrightarrow> tn \<notin> Some ` set xs \<Longrightarrow>
   \<exists>h'. while_loop (reverseHeadToTail_body tn) (h, hd', nl)
           = return (h', if xs = [] then nl else Some (last xs))
       \<and> chain h' (if xs = [] then (if nl = None then tn else nl) else Some (last xs))
            (rev xs @ ys)
       \<and> map val h' = map val h
       \<and> (\<forall>x. x \<notin> set xs \<longrightarrow> h' ! x = h ! x)"
proof (induction xs arbitrary: h hd' nl ys)
  case Nil
  hence "reverseHeadToTail_body tn (h, hd', nl) = leave (h, nl)"
    by (simp add: reverseHeadToTail_body_def)
  hence "while_loop (reverseHeadToTail_body tn) (h, hd', nl) = return (h, nl)"
    by (rule while_loop_Leave)
  with Nil show ?case by simp
next
  case (Cons x xs)
  define target where "target = (if nl = None then tn else nl)"
  let ?h1 = "h[x := (h ! x)\<lparr>nxt := target\<rparr>]"
  from Cons.prems(1) have x: "hd' = Some x" "x < length h"
    and rest: "path h (nxt (h ! x)) xs tn"
    by simp_all
  from Cons.prems(4) have stop: "Some x \<noteq> tn" "tn \<notin> Some ` set xs" by auto
  from Cons.prems(3) have fresh: "x \<notin> set xs" "x \<notin> set ys" and dist: "distinct (xs @ x # ys)"
    by auto
  have "(if nl = None then set_next h (Some x) tn else set_next h (Some x) nl) = Inr ?h1"
    using x by (simp add: target_def)
  hence step: "reverseHeadToTail_body tn (h, hd', nl) = again (?h1, nxt (h ! x), Some x)"
    using x stop by (simp add: reverseHeadToTail_body_def)
  have p1: "path ?h1 (nxt (h ! x)) xs tn" using rest fresh by simp
  have p2: "chain ?h1 (if Some x = None then tn else Some x) (x # ys)"
    using Cons.prems(2) x fresh by (simp add: target_def)
  from Cons.IH[OF p1 p2 dist stop(2)] obtain h' where
    run: "while_loop (reverseHeadToTail_body tn) (?h1, nxt (h ! x), Some x)
        = return (h', if xs = [] then Some x else Some (last xs))"
    and ch: "chain h' (if xs = [] then (if Some x = None then tn else Some x) else Some (last xs))
        (rev xs @ x # ys)"
    and vs: "map val h' = map val ?h1"
    and fr: "\<forall>y. y \<notin> set xs \<longrightarrow> h' ! y = ?h1 ! y"
    by blast
  from step run have "while_loop (reverseHeadToTail_body tn) (h, hd', nl)
      = return (h', if xs = [] then Some x else Some (last xs))"
    by (rule while_loop_step)
  hence "while_loop (reverseHeadToTail_body tn) (h, hd', nl)
      = return (h', if x # xs = [] then nl else Some (last (x # xs)))"
    by simp
  moreover have "chain h' (if x # xs = [] then (if nl = None then tn else nl)
      else Some (last (x # xs))) (rev (x # xs) @ ys)"
    using ch by (cases "xs = []") simp_all
  moreover have "map val h' = map val h" using vs by simp
  moreover have "\<forall>y. y \<notin> set (x # xs) \<longrightarrow> h' ! y = h ! y" using fr by simp
  ultimately show ?case by blast
qed

lemma reverseHeadToTail_chain:
  assumes ch: "chain h head as" and K: "0 < K" "K \<le> length as"
  shows "\<exists>h'. reverseHeadToTail h head (Some (as ! (K - 1)))
           = return (h', Some (as ! (K - 1)), head)
       \<and> chain h' (Some (as ! (K - 1))) (rev (take K as) @ drop K as)
       \<and> map val h' = map val h
       \<and> (\<forall>x. x \<notin> set (take K as) \<longrightarrow> h' ! x = h ! x)"
proof -
  define grp where "grp = take K as"
  define rest where "rest = drop K as"
  define tn where "tn = refat as K"
  have as_eq: "as = grp @ rest" by (simp add: grp_def rest_def)
  from ch have dist: "distinct (grp @ rest)" unfolding as_eq[symmetric] by (rule chain_distinct)
  from K have grp_ne: "grp \<noteq> []" and len_grp: "length grp = K"
    by (auto simp: grp_def)
  from grp_ne have "last grp = grp ! (length grp - 1)" by (rule last_conv_nth)
  with len_grp K have last_grp: "last grp = as ! (K - 1)" by (simp add: grp_def)
  have head: "head = Some (as ! 0)" "as ! 0 < length h"
    using ch K by (cases as; simp)+
  have tail: "as ! (K - 1) < length h" using ch K by (intro chain_in_heap[OF ch]) simp
  have tail_next: "get_next h (Some (as ! (K - 1))) = Inr tn"
    using get_next_refat[OF ch, of "K - 1"] K by (simp add: refat_def tn_def)
  have p1: "path h head grp tn" unfolding grp_def tn_def using ch by (rule path_take)
  have p2: "chain h (if (None :: ref) = None then tn else None) rest"
    unfolding rest_def tn_def using chain_drop[OF ch, of K] by simp
  have p3: "tn \<notin> Some ` set grp"
  proof
    assume "tn \<in> Some ` set grp"
    then obtain x where x: "x \<in> set grp" "tn = Some x" by auto
    hence "K < length as" "x = as ! K" by (auto simp: tn_def refat_def split: if_splits)
    hence "x \<in> set rest" by (auto simp: rest_def in_set_conv_nth intro!: exI[of _ 0])
    with x(1) dist show False by auto
  qed
  from reverseHeadToTail_loop[OF p1 p2 dist p3] grp_ne last_grp obtain h1 where
    run: "while_loop (reverseHeadToTail_body tn) (h, head, None)
        = return (h1, Some (as ! (K - 1)))"
    and ch1: "chain h1 (Some (as ! (K - 1))) (rev grp @ rest)"
    and vs: "map val h1 = map val h"
    and fr: "\<forall>x. x \<notin> set grp \<longrightarrow> h1 ! x = h ! x"
    by auto
  have "printList h1 (Some (as ! (K - 1))) = return h1" using ch1 by (rule printList_chain)
  with run tail_next head tail
  have "reverseHeadToTail h head (Some (as ! (K - 1))) = return (h1, Some (as ! (K - 1)), head)"
    by (simp add: reverseHeadToTail_def)
  with ch1 vs fr show ?thesis unfolding grp_def rest_def by blast
qed


lemma reverseListKAtATime_loop:
  assumes K: "K = max 1 (nat k)"
  shows "chain h newHead cur \<Longrightarrow>
    (if firstTime then out = [] \<and> firstHead = newHead \<and> prevTail = newHead
     else out \<noteq> [] \<and> chain h firstHead (out @ cur) \<and> prevTail = Some (last out)) \<Longrightarrow>
    \<exists>h' r. while_loop (reverseListKAtATime_body k)
              (h, firstTime, newHead, firstHead, prevTail) = return (h', r)
       \<and> chain h' r (out @ reverse_groups K cur)
       \<and> map val h' = map val h"
proof (induction "length cur"
    arbitrary: h firstTime newHead firstHead prevTail out cur rule: less_induct)
  case less
  note ch = less.prems(1) and inv = less.prems(2)
  have whole: "chain h firstHead (out @ cur)"
    using ch inv by (cases firstTime) simp_all
  have ft: "findTail h newHead k
      = return (h, if K \<le> length cur then Some (cur ! (K - 1)) else newHead, K \<le> length cur)"
    using ch K by (rule findTail_chain)
  show ?case
  proof (cases "K \<le> length cur")
    case False
    with ft have "reverseListKAtATime_body k (h, firstTime, newHead, firstHead, prevTail)
        = leave (h, firstHead)"
      by (simp add: reverseListKAtATime_body_def)
    hence "while_loop (reverseListKAtATime_body k) (h, firstTime, newHead, firstHead, prevTail)
        = return (h, firstHead)"
      by (rule while_loop_Leave)
    moreover from False have "reverse_groups K cur = cur" by (simp add: reverse_groups_short)
    ultimately show ?thesis using whole by simp
  next
    case True
    have K0: "0 < K" using K by simp
    define grp where "grp = take K cur"
    define rest where "rest = drop K cur"
    define tail where "tail = cur ! (K - 1)"
    have cur_eq: "cur = grp @ rest" by (simp add: grp_def rest_def)
    have grp_ne: "grp \<noteq> []" using K0 True by (auto simp: grp_def)
    have hd_grp: "hd grp = cur ! 0" using K0 True by (cases cur) (simp_all add: grp_def take_Cons')
    have newHead: "newHead = Some (cur ! 0)" "cur ! 0 < length h"
      using ch K0 True by (cases cur; simp)+
    from whole have dist: "distinct (out @ grp @ rest)"
      unfolding cur_eq by (rule chain_distinct)
    have tail_valid: "tail < length h"
      unfolding tail_def using K0 True by (intro chain_in_heap[OF ch]) simp
    have next_head: "get_next h (Some tail) = Inr (refat cur K)"
      using get_next_refat[OF ch, of "K - 1"] K0 True by (simp add: refat_def tail_def)
    from reverseHeadToTail_chain[OF ch K0 True] obtain h2 where
      rev: "reverseHeadToTail h newHead (Some tail) = return (h2, Some tail, newHead)"
      and ch2: "chain h2 (Some tail) (rev grp @ rest)"
      and vs2: "map val h2 = map val h"
      and fr2: "\<forall>x. x \<notin> set grp \<longrightarrow> h2 ! x = h ! x"
      unfolding grp_def rest_def tail_def by blast
    have len2: "length h2 = length h" using vs2 by (rule map_val_length)
    have rest_h: "chain h (refat cur K) rest" unfolding rest_def using ch by (rule chain_drop)
    have shorter: "length rest < length cur" using K0 True by (simp add: rest_def)
    have groups: "reverse_groups K cur = rev grp @ reverse_groups K rest"
      using K0 True by (simp add: reverse_groups_full grp_def rest_def)
    show ?thesis
    proof (cases firstTime)
      case True
      with inv have first: "out = []" "firstHead = newHead" "prevTail = newHead" by simp_all
      have "get_value h2 prevTail = Inr (val (h2 ! (cur ! 0)))"
        using first newHead len2 by simp
      hence step: "reverseListKAtATime_body k (h, firstTime, newHead, firstHead, prevTail)
          = again (h2, False, refat cur K, Some tail, prevTail)"
        using ft \<open>K \<le> length cur\<close> next_head rev True tail_valid
        by (simp add: reverseListKAtATime_body_def tail_def)
      have "\<forall>a \<in> set rest. nxt (h2 ! a) = nxt (h ! a)" using fr2 dist by auto
      with len2 rest_h have p1: "chain h2 (refat cur K) rest"
        using chain_frame[of h2 h rest "refat cur K"] by simp
      have "last (rev grp) = cur ! 0" using grp_ne hd_grp by (simp add: last_rev)
      hence p2: "if False then rev grp = [] \<and> Some tail = refat cur K \<and> prevTail = refat cur K
          else rev grp \<noteq> [] \<and> chain h2 (Some tail) (rev grp @ rest)
             \<and> prevTail = Some (last (rev grp))"
        using grp_ne ch2 first newHead by simp
      from less.hyps[OF shorter p1 p2] obtain h' r where
        run: "while_loop (reverseListKAtATime_body k) (h2, False, refat cur K, Some tail, prevTail)
            = return (h', r)"
        and res: "chain h' r (rev grp @ reverse_groups K rest)"
        and vs: "map val h' = map val h2"
        by blast
      from step run have "while_loop (reverseListKAtATime_body k)
          (h, firstTime, newHead, firstHead, prevTail) = return (h', r)"
        by (rule while_loop_step)
      moreover have "chain h' r (out @ reverse_groups K cur)"
        using res first groups by simp
      moreover have "map val h' = map val h" using vs vs2 by simp
      ultimately show ?thesis by blast
    next
      case False
      with inv have later: "out \<noteq> []" "prevTail = Some (last out)" by simp_all
      define p where "p = last out"
      define ob where "ob = butlast out"
      have out_eq: "out = ob @ [p]" using later(1) by (simp add: p_def ob_def)
      from dist have fresh: "p \<notin> set ob" "p \<notin> set grp" "p \<notin> set rest"
        "set ob \<inter> set grp = {}" "set grp \<inter> set rest = {}"
        unfolding out_eq by auto
      from whole have "chain h firstHead (ob @ p # cur)" unfolding out_eq by simp
      then obtain q where "path h firstHead ob q" "chain h q (p # cur)"
        unfolding chain_append by blast
      hence lead: "path h firstHead ob (Some p)" and p_valid: "p < length h" by simp_all
      let ?h3 = "h2[p := (h2 ! p)\<lparr>nxt := Some tail\<rparr>]"
      have "get_value h2 prevTail = Inr (val (h2 ! p))"
        using later(2) p_valid len2 by (simp add: p_def)
      moreover have "set_next h2 prevTail (Some tail) = Inr ?h3"
        using later(2) p_valid len2 by (simp add: p_def)
      ultimately have step:
        "reverseListKAtATime_body k (h, firstTime, newHead, firstHead, prevTail)
          = again (?h3, firstTime, refat cur K, firstHead, newHead)"
        using ft \<open>K \<le> length cur\<close> next_head rev False tail_valid
        by (simp add: reverseListKAtATime_body_def tail_def)
      have "\<forall>a \<in> set rest. nxt (?h3 ! a) = nxt (h ! a)"
      proof
        fix a assume a: "a \<in> set rest"
        with fresh have "a \<noteq> p" "a \<notin> set grp" by auto
        with fr2 show "nxt (?h3 ! a) = nxt (h ! a)" by simp
      qed
      moreover have "length ?h3 = length h" using len2 by simp
      ultimately have p1: "chain ?h3 (refat cur K) rest"
        using rest_h chain_frame[of ?h3 h rest "refat cur K"] by blast
      have "\<forall>a \<in> set ob. nxt (?h3 ! a) = nxt (h ! a)"
      proof
        fix a assume a: "a \<in> set ob"
        with fresh have "a \<noteq> p" "a \<notin> set grp" by auto
        with fr2 show "nxt (?h3 ! a) = nxt (h ! a)" by simp
      qed
      with \<open>length ?h3 = length h\<close> lead have "path ?h3 firstHead ob (Some p)"
        using path_frame[of ?h3 h ob firstHead "Some p"] by blast
      moreover have "nxt (?h3 ! p) = Some tail" "p < length ?h3"
        using p_valid len2 by simp_all
      moreover have "chain ?h3 (Some tail) (rev grp @ rest)"
        using ch2 fresh by simp
      ultimately have joined: "chain ?h3 firstHead ((out @ rev grp) @ rest)"
        unfolding out_eq by (simp add: chain_append)
      have "last (out @ rev grp) = cur ! 0" using grp_ne hd_grp by (simp add: last_rev)
      hence p2: "if firstTime
          then out @ rev grp = [] \<and> firstHead = refat cur K \<and> newHead = refat cur K
          else out @ rev grp \<noteq> [] \<and> chain ?h3 firstHead ((out @ rev grp) @ rest)
             \<and> newHead = Some (last (out @ rev grp))"
        using False later(1) joined newHead by simp
      from less.hyps[OF shorter p1 p2] obtain h' r where
        run: "while_loop (reverseListKAtATime_body k)
            (?h3, firstTime, refat cur K, firstHead, newHead) = return (h', r)"
        and res: "chain h' r ((out @ rev grp) @ reverse_groups K rest)"
        and vs: "map val h' = map val ?h3"
        by blast
      from step run have "while_loop (reverseListKAtATime_body k)
          (h, firstTime, newHead, firstHead, prevTail) = return (h', r)"
        by (rule while_loop_step)
      moreover have "chain h' r (out @ reverse_groups K cur)"
        using res groups by simp
      moreover have "map val h' = map val h" using vs vs2 by simp
      ultimately show ?thesis by blast
    qed
  qed
qed

lemma reverseListKAtATime_chain:
  assumes "chain h head as"
  shows "\<exists>h' r. reverseListKAtATime h head k = return (h', r)
           \<and> chain h' r (reverse_groups (nat k) as)
           \<and> map val h' = map val h"
proof -
  define K where "K = max 1 (nat k)"
  have "if True then ([] :: nat list) = [] \<and> head = head \<and> head = head
        else [] \<noteq> ([] :: nat list) \<and> chain h head ([] @ as) \<and> head = Some (last [])"
    by simp
  from reverseListKAtATime_loop[OF K_def assms this] obtain h' r where
    "reverseListKAtATime h head k = return (h', r)" "chain h' r (reverse_groups K as)"
    "map val h' = map val h"
    by (auto simp: reverseListKAtATime_def)
  moreover have "reverse_groups K as = reverse_groups (nat k) as"
  proof (cases "nat k = 0")
    case True
    thus ?thesis by (simp add: K_def reverse_groups_one reverse_groups_short)
  next
    case False
    hence "K = nat k" by (simp add: K_def)
    thus ?thesis by simp
  qed
  ultimately show ?thesis by auto
qed

lemma reverse_groups_Nil: "reverse_groups k [] = []"
  by (rule reverse_groups_short) auto

lemma reverse_groups_append:
  "k dvd length pre \<Longrightarrow>
   reverse_groups k (pre @ xs) = reverse_groups k pre @ reverse_groups k xs"
proof (induction k pre rule: reverse_groups.induct)
  case (1 k pre)
  show ?case
  proof (cases "k = 0 \<or> pre = []")
    case True
    thus ?thesis by (auto simp: reverse_groups_short reverse_groups_Nil)
  next
    case False
    hence k: "0 < k" and ne: "0 < length pre" by simp_all
    from "1.prems" ne have le: "k \<le> length pre" by (rule dvd_imp_le)
    from "1.prems" le have "k dvd length (drop k pre)" by (simp add: dvd_diff_nat)
    moreover from k le have "\<not> (k = 0 \<or> length pre < k)" by simp
    ultimately have "reverse_groups k (drop k pre @ xs)
        = reverse_groups k (drop k pre) @ reverse_groups k xs"
      by (rule "1.IH"[rotated])
    moreover have "reverse_groups k (pre @ xs)
        = rev (take k pre) @ reverse_groups k (drop k pre @ xs)"
      using k le by (simp add: reverse_groups_full)
    moreover have "reverse_groups k pre = rev (take k pre) @ reverse_groups k (drop k pre)"
      using k le by (rule reverse_groups_full)
    ultimately show ?thesis by simp
  qed
qed

lemma reverse_groups_exact:
  "0 < k \<Longrightarrow> length grp = k \<Longrightarrow> reverse_groups k (grp @ ys) = rev grp @ reverse_groups k ys"
  by (simp add: reverse_groups_full)

lemma chain_link: "chain h p (xs @ a # ys) \<Longrightarrow> nxt (h ! a) = refat ys 0"
proof -
  assume "chain h p (xs @ a # ys)"
  then obtain r where "chain h r (a # ys)" unfolding chain_append by blast
  hence "chain h (nxt (h ! a)) ys" by simp
  thus ?thesis by (simp add: refat_0)
qed

text \<open>
  In the list reversed in groups, the first element of a full group that starts
  at a multiple of \<open>k\<close> stands directly in front of what follows the group in
  its new order.
\<close>

lemma reverse_groups_split:
  assumes k: "0 < k" "k dvd length pre" "length grp = k"
  shows "reverse_groups k (pre @ grp @ ys)
       = (reverse_groups k pre @ rev (tl grp)) @ hd grp # reverse_groups k ys"
proof -
  from k have "grp \<noteq> []" by auto
  hence "rev grp = rev (tl grp) @ [hd grp]" by (cases grp) simp_all
  moreover have "reverse_groups k (pre @ grp @ ys)
      = reverse_groups k pre @ reverse_groups k (grp @ ys)"
    using k(2) by (rule reverse_groups_append)
  moreover have "reverse_groups k (grp @ ys) = rev grp @ reverse_groups k ys"
    using k(1,3) by (rule reverse_groups_exact)
  ultimately show ?thesis by simp
qed

text \<open>
  C3, as the code has it. For every acyclic chain, \<^verbatim>\<open>reverseInKGroups\<close>
  (\<^verbatim>\<open>reverseListKAtATime\<close>) returns the chain of the same nodes in which every
  full run of \<open>k\<close> consecutive nodes is reversed and the run of fewer than \<open>k\<close>
  nodes left at the end is in its original order; the values of the nodes are
  unchanged. The node that is relinked to what follows a reversed group is the
  group's original head, which has become its tail: it points to the original
  tail (the new head) of the following full group, or to the first node of the
  final partial run, or to nothing when the group is the last one.
\<close>

theorem reverseInKGroups_correct:
  assumes "chain h head as"
  shows "\<exists>h' r. reverseListKAtATime h head k = return (h', r)
           \<and> chain h' r (reverse_groups (nat k) as)
           \<and> vals h' (reverse_groups (nat k) as) = reverse_groups (nat k) (vals h as)
           \<and> (\<forall>pre grp following post.
                 as = pre @ grp @ following @ post \<and> 0 < nat k \<and> nat k dvd length pre
                 \<and> length grp = nat k \<and> length following = nat k
                 \<longrightarrow> nxt (h' ! hd grp) = Some (last following))
           \<and> (\<forall>pre grp rest.
                 as = pre @ grp @ rest \<and> 0 < nat k \<and> nat k dvd length pre
                 \<and> length grp = nat k \<and> length rest < nat k
                 \<longrightarrow> nxt (h' ! hd grp) = (if rest = [] then None else Some (hd rest)))"
proof -
  from reverseListKAtATime_chain[OF assms, of k] obtain h' r where
    run: "reverseListKAtATime h head k = return (h', r)"
    and ch: "chain h' r (reverse_groups (nat k) as)"
    and vs: "map val h' = map val h"
    by blast
  have "\<forall>a \<in> set (reverse_groups (nat k) as). a < length h"
    using assms by (auto simp: set_reverse_groups dest: chain_in_heap)
  with vs have "vals h' (reverse_groups (nat k) as) = vals h (reverse_groups (nat k) as)"
    by (rule vals_same)
  also have "\<dots> = reverse_groups (nat k) (vals h as)"
    by (simp add: vals_def map_reverse_groups)
  finally have same_vals:
    "vals h' (reverse_groups (nat k) as) = reverse_groups (nat k) (vals h as)" .
  have full: "nxt (h' ! hd grp) = Some (last following)"
    if "as = pre @ grp @ following @ post \<and> 0 < nat k \<and> nat k dvd length pre
        \<and> length grp = nat k \<and> length following = nat k"
    for pre grp following post
  proof -
    from that have parts: "as = pre @ grp @ following @ post" and k: "0 < nat k"
      "nat k dvd length pre" "length grp = nat k" and f: "length following = nat k"
      by simp_all
    from k f have ne: "following \<noteq> []" by auto
    have "reverse_groups (nat k) as = (reverse_groups (nat k) pre @ rev (tl grp))
        @ hd grp # reverse_groups (nat k) (following @ post)"
      unfolding parts using k by (rule reverse_groups_split)
    with ch have "chain h' r ((reverse_groups (nat k) pre @ rev (tl grp))
        @ hd grp # reverse_groups (nat k) (following @ post))"
      by simp
    hence "nxt (h' ! hd grp) = refat (reverse_groups (nat k) (following @ post)) 0"
      by (rule chain_link)
    also have "reverse_groups (nat k) (following @ post)
        = rev following @ reverse_groups (nat k) post"
      using k(1) f by (rule reverse_groups_exact)
    also have "refat (rev following @ reverse_groups (nat k) post) 0 = Some (last following)"
      using ne by (cases "rev following") (simp_all add: refat_def last_rev[symmetric])
    finally show ?thesis .
  qed
  have partial: "nxt (h' ! hd grp) = (if rest = [] then None else Some (hd rest))"
    if "as = pre @ grp @ rest \<and> 0 < nat k \<and> nat k dvd length pre
        \<and> length grp = nat k \<and> length rest < nat k"
    for pre grp rest
  proof -
    from that have parts: "as = pre @ grp @ rest" and k: "0 < nat k"
      "nat k dvd length pre" "length grp = nat k" and short: "length rest < nat k"
      by simp_all
    have "reverse_groups (nat k) as = (reverse_groups (nat k) pre @ rev (tl grp))
        @ hd grp # reverse_groups (nat k) rest"
      unfolding parts using k by (rule reverse_groups_split)
    with ch have "chain h' r ((reverse_groups (nat k) pre @ rev (tl grp))
        @ hd grp # reverse_groups (nat k) rest)"
      by simp
    hence "nxt (h' ! hd grp) = refat (reverse_groups (nat k) rest) 0"
      by (rule chain_link)
    also have "reverse_groups (nat k) rest = rest" using short by (simp add: reverse_groups_short)
    also have "refat rest 0 = (if rest = [] then None else Some (hd rest))"
      by (cases rest) (simp_all add: refat_def)
    finally show ?thesis .
  qed
  from run ch same_vals full partial show ?thesis by blast
qed

text \<open>
  The list \<^verbatim>\<open>[1, ..., 10]\<close>: with \<open>k = 5\<close> the result holds
  \<^verbatim>\<open>[5,4,3,2,1,10,9,8,7,6]\<close>, and node 0, the original head of the first
  group, points to node 9, the new head of the second group, whose own
  original head, node 5, ends the chain; with \<open>k = 3\<close> three groups are
  reversed, the last element stays where it is, and node 6, the original head
  of the third group, points to it.
\<close>

theorem reverseInKGroups_examples:
  "(\<exists>h. convertArrayToList [] [1, 2, 3, 4, 5, 6, 7, 8, 9, 10] = Inr (h, Some 0)
      \<and> chain h (Some 0) [0, 1, 2, 3, 4, 5, 6, 7, 8, 9]
      \<and> (\<exists>h' r. reverseListKAtATime h (Some 0) 5 = return (h', r)
            \<and> chain h' r [4, 3, 2, 1, 0, 9, 8, 7, 6, 5]
            \<and> vals h' [4, 3, 2, 1, 0, 9, 8, 7, 6, 5] = [5, 4, 3, 2, 1, 10, 9, 8, 7, 6]
            \<and> nxt (h' ! 0) = Some 9 \<and> nxt (h' ! 5) = None)
      \<and> (\<exists>h' r. reverseListKAtATime h (Some 0) 3 = return (h', r)
            \<and> chain h' r [2, 1, 0, 5, 4, 3, 8, 7, 6, 9]
            \<and> vals h' [2, 1, 0, 5, 4, 3, 8, 7, 6, 9] = [3, 2, 1, 6, 5, 4, 9, 8, 7, 10]
            \<and> nxt (h' ! 0) = Some 5 \<and> nxt (h' ! 3) = Some 8 \<and> nxt (h' ! 6) = Some 9))"
proof -
  let ?h = "[\<lparr>val = 1, nxt = Some 1\<rparr>, \<lparr>val = 2, nxt = Some 2\<rparr>, \<lparr>val = 3, nxt = Some 3\<rparr>,
             \<lparr>val = 4, nxt = Some 4\<rparr>, \<lparr>val = 5, nxt = Some 5\<rparr>, \<lparr>val = 6, nxt = Some 6\<rparr>,
             \<lparr>val = 7, nxt = Some 7\<rparr>, \<lparr>val = 8, nxt = Some 8\<rparr>, \<lparr>val = 9, nxt = Some 9\<rparr>,
             \<lparr>val = 10, nxt = None\<rparr>]"
  have build: "convertArrayToList [] [1, 2, 3, 4, 5, 6, 7, 8, 9, 10] = Inr (?h, Some 0)"
    by (simp add: convertArrayToList_def Node_def)
  have c: "chain ?h (Some 0) [0, 1, 2, 3, 4, 5, 6, 7, 8, 9]" by simp
  have v: "vals ?h [0, 1, 2, 3, 4, 5, 6, 7, 8, 9] = [1, 2, 3, 4, 5, 6, 7, 8, 9, 10]"
    by (simp add: vals_def)
  have g5: "reverse_groups (nat 5) [0, 1, 2, 3, 4, 5, 6, 7, 8, 9 :: nat]
      = [4, 3, 2, 1, 0, 9, 8, 7, 6, 5]"
    "reverse_groups (nat 5) [1, 2, 3, 4, 5, 6, 7, 8, 9, 10 :: int]
      = [5, 4, 3, 2, 1, 10, 9, 8, 7, 6]"
    by code_simp+
  have g3: "reverse_groups (nat 3) [0, 1, 2, 3, 4, 5, 6, 7, 8, 9 :: nat]
      = [2, 1, 0, 5, 4, 3, 8, 7, 6, 9]"
    "reverse_groups (nat 3) [1, 2, 3, 4, 5, 6, 7, 8, 9, 10 :: int]
      = [3, 2, 1, 6, 5, 4, 9, 8, 7, 10]"
    by code_simp+
  have five: "\<exists>h' r. reverseListKAtATime ?h (Some 0) 5 = return (h', r)
            \<and> chain h' r [4, 3, 2, 1, 0, 9, 8, 7, 6, 5]
            \<and> vals h' [4, 3, 2, 1, 0, 9, 8, 7, 6, 5] = [5, 4, 3, 2, 1, 10, 9, 8, 7, 6]
            \<and> nxt (h' ! 0) = Some 9 \<and> nxt (h' ! 5) = None"
  proof -
    from reverseInKGroups_correct[OF c, of 5] obtain h' r where
      run: "reverseListKAtATime ?h (Some 0) 5 = return (h', r)"
      and ch: "chain h' r [4, 3, 2, 1, 0, 9, 8, 7, 6, 5]"
      and vs: "vals h' [4, 3, 2, 1, 0, 9, 8, 7, 6, 5] = [5, 4, 3, 2, 1, 10, 9, 8, 7, 6]"
      and full: "\<forall>pre grp following post.
          [0, 1, 2, 3, 4, 5, 6, 7, 8, 9] = pre @ grp @ following @ post \<and> 0 < nat 5
          \<and> nat 5 dvd length pre \<and> length grp = nat 5 \<and> length following = nat 5
          \<longrightarrow> nxt (h' ! hd grp) = Some (last following)"
      and partial: "\<forall>pre grp rest.
          [0, 1, 2, 3, 4, 5, 6, 7, 8, 9] = pre @ grp @ rest \<and> 0 < nat 5
          \<and> nat 5 dvd length pre \<and> length grp = nat 5 \<and> length rest < nat 5
          \<longrightarrow> nxt (h' ! hd grp) = (if rest = [] then None else Some (hd rest))"
      unfolding v g5 by blast
    have "([0, 1, 2, 3, 4, 5, 6, 7, 8, 9] :: nat list) = [] @ [0, 1, 2, 3, 4] @ [5, 6, 7, 8, 9] @ []
        \<and> 0 < nat 5 \<and> nat 5 dvd length ([] :: nat list)
        \<and> length [0, 1, 2, 3, 4 :: nat] = nat 5 \<and> length [5, 6, 7, 8, 9 :: nat] = nat 5"
      by code_simp
    from full[rule_format, OF this] have "nxt (h' ! 0) = Some 9" by simp
    moreover have "([0, 1, 2, 3, 4, 5, 6, 7, 8, 9] :: nat list) = [0, 1, 2, 3, 4] @ [5, 6, 7, 8, 9] @ []
        \<and> 0 < nat 5 \<and> nat 5 dvd length [0, 1, 2, 3, 4 :: nat]
        \<and> length [5, 6, 7, 8, 9 :: nat] = nat 5 \<and> length ([] :: nat list) < nat 5"
      by code_simp
    from partial[rule_format, OF this] have "nxt (h' ! 5) = None" by simp
    ultimately show ?thesis using run ch vs by blast
  qed
  have three: "\<exists>h' r. reverseListKAtATime ?h (Some 0) 3 = return (h', r)
            \<and> chain h' r [2, 1, 0, 5, 4, 3, 8, 7, 6, 9]
            \<and> vals h' [2, 1, 0, 5, 4, 3, 8, 7, 6, 9] = [3, 2, 1, 6, 5, 4, 9, 8, 7, 10]
            \<and> nxt (h' ! 0) = Some 5 \<and> nxt (h' ! 3) = Some 8 \<and> nxt (h' ! 6) = Some 9"
  proof -
    from reverseInKGroups_correct[OF c, of 3] obtain h' r where
      run: "reverseListKAtATime ?h (Some 0) 3 = return (h', r)"
      and ch: "chain h' r [2, 1, 0, 5, 4, 3, 8, 7, 6, 9]"
      and vs: "vals h' [2, 1, 0, 5, 4, 3, 8, 7, 6, 9] = [3, 2, 1, 6, 5, 4, 9, 8, 7, 10]"
      and full: "\<forall>pre grp following post.
          [0, 1, 2, 3, 4, 5, 6, 7, 8, 9] = pre @ grp @ following @ post \<and> 0 < nat 3
          \<and> nat 3 dvd length pre \<and> length grp = nat 3 \<and> length following = nat 3
          \<longrightarrow> nxt (h' ! hd grp) = Some (last following)"
      and partial: "\<forall>pre grp rest.
          [0, 1, 2, 3, 4, 5, 6, 7, 8, 9] = pre @ grp @ rest \<and> 0 < nat 3
          \<and> nat 3 dvd length pre \<and> length grp = nat 3 \<and> length rest < nat 3
          \<longrightarrow> nxt (h' ! hd grp) = (if rest = [] then None else Some (hd rest))"
      unfolding v g3 by blast
    have "([0, 1, 2, 3, 4, 5, 6, 7, 8, 9] :: nat list) = [] @ [0, 1, 2] @ [3, 4, 5] @ [6, 7, 8, 9]
        \<and> 0 < nat 3 \<and> nat 3 dvd length ([] :: nat list)
        \<and> length [0, 1, 2 :: nat] = nat 3 \<and> length [3, 4, 5 :: nat] = nat 3"
      by code_simp
    from full[rule_format, OF this] have "nxt (h' ! 0) = Some 5" by simp
    moreover have "([0, 1, 2, 3, 4, 5, 6, 7, 8, 9] :: nat list) = [0, 1, 2] @ [3, 4, 5] @ [6, 7, 8] @ [9]
        \<and> 0 < nat 3 \<and> nat 3 dvd length [0, 1, 2 :: nat]
        \<and> length [3, 4, 5 :: nat] = nat 3 \<and> length [6, 7, 8 :: nat] = nat 3"
      by code_simp
    from full[rule_format, OF this] have "nxt (h' ! 3) = Some 8" by simp
    moreover have "([0, 1, 2, 3, 4, 5, 6, 7, 8, 9] :: nat list) = [0, 1, 2, 3, 4, 5] @ [6, 7, 8] @ [9]
        \<and> 0 < nat 3 \<and> nat 3 dvd length [0, 1, 2, 3, 4, 5 :: nat]
        \<and> length [6, 7, 8 :: nat] = nat 3 \<and> length [9 :: nat] < nat 3"
      by code_simp
    from partial[rule_format, OF this] have "nxt (h' ! 6) = Some 9" by simp
    ultimately show ?thesis using run ch vs by blast
  qed
  from build c five three show ?thesis by blast
qed

text \<open>
  C3 as stated fails in its relinking clause. On \<^verbatim>\<open>[1, ..., 10]\<close> with
  \<open>k = 5\<close> the original tail of the first group is node 4: it is the head of the
  returned chain and its \<^verbatim>\<open>next\<close> is node 3, not node 9, the new head of the
  following group. The node that points to node 9 is node 0, the original head
  of the first group.
\<close>

theorem reverseInKGroups_relink_counterexample:
  "reverseListKAtATime
     [\<lparr>val = 1, nxt = Some 1\<rparr>, \<lparr>val = 2, nxt = Some 2\<rparr>, \<lparr>val = 3, nxt = Some 3\<rparr>,
      \<lparr>val = 4, nxt = Some 4\<rparr>, \<lparr>val = 5, nxt = Some 5\<rparr>, \<lparr>val = 6, nxt = Some 6\<rparr>,
      \<lparr>val = 7, nxt = Some 7\<rparr>, \<lparr>val = 8, nxt = Some 8\<rparr>, \<lparr>val = 9, nxt = Some 9\<rparr>,
      \<lparr>val = 10, nxt = None\<rparr>] (Some 0) 5
   = return
      ([\<lparr>val = 1, nxt = Some 9\<rparr>, \<lparr>val = 2, nxt = Some 0\<rparr>, \<lparr>val = 3, nxt = Some 1\<rparr>,
        \<lparr>val = 4, nxt = Some 2\<rparr>, \<lparr>val = 5, nxt = Some 3\<rparr>, \<lparr>val = 6, nxt = None\<rparr>,
        \<lparr>val = 7, nxt = Some 5\<rparr>, \<lparr>val = 8, nxt = Some 6\<rparr>, \<lparr>val = 9, nxt = Some 7\<rparr>,
        \<lparr>val = 10, nxt = Some 8\<rparr>], Some 4)
 \<and> chain
      [\<lparr>val = 1, nxt = Some 9\<rparr>, \<lparr>val = 2, nxt = Some 0\<rparr>, \<lparr>val = 3, nxt = Some 1\<rparr>,
       \<lparr>val = 4, nxt = Some 2\<rparr>, \<lparr>val = 5, nxt = Some 3\<rparr>, \<lparr>val = 6, nxt = None\<rparr>,
       \<lparr>val = 7, nxt = Some 5\<rparr>, \<lparr>val = 8, nxt = Some 6\<rparr>, \<lparr>val = 9, nxt = Some 7\<rparr>,
       \<lparr>val = 10, nxt = Some 8\<rparr>] (Some 4) [4, 3, 2, 1, 0, 9, 8, 7, 6, 5]
 \<and> last [0, 1, 2, 3, 4 :: nat] = 4 \<and> last [5, 6, 7, 8, 9 :: nat] = 9
 \<and> nxt ([\<lparr>val = 1, nxt = Some 9\<rparr>, \<lparr>val = 2, nxt = Some 0\<rparr>, \<lparr>val = 3, nxt = Some 1\<rparr>,
       \<lparr>val = 4, nxt = Some 2\<rparr>, \<lparr>val = 5, nxt = Some 3\<rparr>, \<lparr>val = 6, nxt = None\<rparr>,
       \<lparr>val = 7, nxt = Some 5\<rparr>, \<lparr>val = 8, nxt = Some 6\<rparr>, \<lparr>val = 9, nxt = Some 7\<rparr>,
       \<lparr>val = 10, nxt = Some 8\<rparr>] ! 4) = Some 3
 \<and> nxt ([\<lparr>val = 1, nxt = Some 9\<rparr>, \<lparr>val = 2, nxt = Some 0\<rparr>, \<lparr>val = 3, nxt = Some 1\<rparr>,
       \<lparr>val = 4, nxt = Some 2\<rparr>, \<lparr>val = 5, nxt = Some 3\<rparr>, \<lparr>val = 6, nxt = None\<rparr>,
       \<lparr>val = 7, nxt = Some 5\<rparr>, \<lparr>val = 8, nxt = Some 6\<rparr>, \<lparr>val = 9, nxt = Some 7\<rparr>,
       \<lparr>val = 10, nxt = Some 8\<rparr>] ! 4) \<noteq> Some 9
 \<and> nxt ([\<lparr>val = 1, nxt = Some 9\<rparr>, \<lparr>val = 2, nxt = Some 0\<rparr>, \<lparr>val = 3, nxt = Some 1\<rparr>,
       \<lparr>val = 4, nxt = Some 2\<rparr>, \<lparr>val = 5, nxt = Some 3\<rparr>, \<lparr>val = 6, nxt = None\<rparr>,
       \<lparr>val = 7, nxt = Some 5\<rparr>, \<lparr>val = 8, nxt = Some 6\<rparr>, \<lparr>val = 9, nxt = Some 7\<rparr>,
       \<lparr>val = 10, nxt = Some 8\<rparr>] ! 0) = Some 9"
proof -
  have "reverseListKAtATime
     [\<lparr>val = 1, nxt = Some 1\<rparr>, \<lparr>val = 2, nxt = Some 2\<rparr>, \<lparr>val = 3, nxt = Some 3\<rparr>,
      \<lparr>val = 4, nxt = Some 4\<rparr>, \<lparr>val = 5, nxt = Some 5\<rparr>, \<lparr>val = 6, nxt = Some 6\<rparr>,
      \<lparr>val = 7, nxt = Some 7\<rparr>, \<lparr>val = 8, nxt = Some 8\<rparr>, \<lparr>val = 9, nxt = Some 9\<rparr>,
      \<lparr>val = 10, nxt = None\<rparr>] (Some 0) 5
   = return
      ([\<lparr>val = 1, nxt = Some 9\<rparr>, \<lparr>val = 2, nxt = Some 0\<rparr>, \<lparr>val = 3, nxt = Some 1\<rparr>,
        \<lparr>val = 4, nxt = Some 2\<rparr>, \<lparr>val = 5, nxt = Some 3\<rparr>, \<lparr>val = 6, nxt = None\<rparr>,
        \<lparr>val = 7, nxt = Some 5\<rparr>, \<lparr>val = 8, nxt = Some 6\<rparr>, \<lparr>val = 9, nxt = Some 7\<rparr>,
        \<lparr>val = 10, nxt = Some 8\<rparr>], Some 4)"
    by code_simp
  thus ?thesis by simp
qed

end
